theory Spec2Isabelle
  imports Complex_Main "HOL-Library.Word" "HOL-Library.Log_Nat"
begin

unbundle bit_operations_syntax

section \<open>JavaScript numbers\<close>

text \<open>
  A JavaScript number is an IEEE double: not-a-number, one of the two infinities, or a finite
  value. Finite values are modelled by the real number they denote. The two zeros are one
  value here; every place of the program that reads a zero (\<open>s < 0\<close>, the conversion to a
  16-bit integer) treats them alike.

  The product \<open>js_times\<close> and the quotient \<open>js_divide\<close> of finite values are exact in the
  model. Where the program uses them they are exact in doubles too, or only the integer part
  is read: a sample is a 32-bit float (24 significant bits) of magnitude at most 1 after
  clamping, its product with \<open>0x8000\<close> or \<open>0x7FFF\<close> has at most 39 significant bits; the
  quotient of a 16-bit integer by \<open>32768\<close> is a dyadic fraction that a 32-bit float holds; and
  the quotient of an array length by a channel count, rounded to a double, has the integer
  part and the integers below it of the exact quotient. The sum \<open>js_plus\<close> and the attribute
  \<open>duration\<close> are rounded to the nearest double, as the scheduler computes them.
\<close>

datatype jsnum = NaN | NegInf | PosInf | Fin real

text \<open>The operator \<open><\<close>: false whenever an operand is not a number.\<close>

fun js_lt :: "jsnum \<Rightarrow> jsnum \<Rightarrow> bool" where
  "js_lt NaN _ = False"
| "js_lt _ NaN = False"
| "js_lt PosInf _ = False"
| "js_lt _ NegInf = False"
| "js_lt NegInf _ = True"
| "js_lt _ PosInf = True"
| "js_lt (Fin a) (Fin b) = (a < b)"

text \<open>\<open>Math.min\<close> and \<open>Math.max\<close> of two arguments: not-a-number is contagious.\<close>

fun Math_min :: "jsnum \<Rightarrow> jsnum \<Rightarrow> jsnum" where
  "Math_min NaN _ = NaN"
| "Math_min _ NaN = NaN"
| "Math_min NegInf _ = NegInf"
| "Math_min _ NegInf = NegInf"
| "Math_min PosInf y = y"
| "Math_min x PosInf = x"
| "Math_min (Fin a) (Fin b) = Fin (min a b)"

fun Math_max :: "jsnum \<Rightarrow> jsnum \<Rightarrow> jsnum" where
  "Math_max NaN _ = NaN"
| "Math_max _ NaN = NaN"
| "Math_max PosInf _ = PosInf"
| "Math_max _ PosInf = PosInf"
| "Math_max NegInf y = y"
| "Math_max x NegInf = x"
| "Math_max (Fin a) (Fin b) = Fin (max a b)"

text \<open>The operator \<open>*\<close>.\<close>

fun js_times :: "jsnum \<Rightarrow> jsnum \<Rightarrow> jsnum" where
  "js_times NaN _ = NaN"
| "js_times _ NaN = NaN"
| "js_times (Fin a) (Fin b) = Fin (a * b)"
| "js_times (Fin a) PosInf = (if a = 0 then NaN else if 0 < a then PosInf else NegInf)"
| "js_times (Fin a) NegInf = (if a = 0 then NaN else if 0 < a then NegInf else PosInf)"
| "js_times PosInf (Fin b) = (if b = 0 then NaN else if 0 < b then PosInf else NegInf)"
| "js_times NegInf (Fin b) = (if b = 0 then NaN else if 0 < b then NegInf else PosInf)"
| "js_times PosInf PosInf = PosInf"
| "js_times PosInf NegInf = NegInf"
| "js_times NegInf PosInf = NegInf"
| "js_times NegInf NegInf = PosInf"

text \<open>Truncation towards zero, the integer part that the integer conversions take.\<close>

definition js_trunc :: "real \<Rightarrow> int" where
  "js_trunc x = (if x < 0 then \<lceil>x\<rceil> else \<lfloor>x\<rfloor>)"

text \<open>
  Storing a number into an \<open>Int16Array\<close> element converts it with \<open>ToInt16\<close>: not-a-number
  and the infinities become 0, a finite value is truncated and reduced modulo \<open>2 ^ 16\<close>.
\<close>

fun ToInt16 :: "jsnum \<Rightarrow> 16 word" where
  "ToInt16 (Fin x) = word_of_int (js_trunc x)"
| "ToInt16 _ = 0"

section \<open>Rounding to the nearest double\<close>

text \<open>
  The result of an arithmetic operation on doubles is the exact result rounded to the
  nearest double, a tie going to the double with the even significand.
  \<open>round_half_even\<close> rounds a real number to the nearest integer in that way.
\<close>

definition round_half_even :: "real \<Rightarrow> int" where
  "round_half_even y =
     (let f = \<lfloor>y\<rfloor>; r = y - of_int f
      in if r < 1 / 2 then f else if 1 / 2 < r then f + 1 else if even f then f else f + 1)"

text \<open>
  The binade of a positive number \<open>x\<close> is the integer \<open>e\<close> with \<open>2 powi e \<le> x < 2 powi (e + 1)\<close>,
  read off the bit length of the integer part of \<open>x\<close> or of \<open>1 / x\<close>.
\<close>

definition binade :: "real \<Rightarrow> int" where
  "binade x = (if 1 \<le> x then bitlen \<lfloor>x\<rfloor> - 1 else - bitlen (\<lceil>1 / x\<rceil> - 1))"

text \<open>
  The doubles of a binade are the multiples of its quantum: 53 significant bits, and no
  quantum below \<open>2 powi (- 1074)\<close>, the smallest subnormal.
\<close>

definition quantum :: "real \<Rightarrow> real" where
  "quantum x = 2 powi (max (binade \<bar>x\<bar> - 52) (- 1074))"

text \<open>Rounding to a multiple of the quantum, the exponent not yet bounded above.\<close>

definition round_unbounded :: "real \<Rightarrow> real" where
  "round_unbounded x =
     (if x = 0 then 0 else of_int (round_half_even (x / quantum x)) * quantum x)"

text \<open>
  A result of magnitude \<open>2 ^ 1024\<close> or more after rounding is an infinity.
\<close>

definition round_double :: "real \<Rightarrow> jsnum" where
  "round_double x =
     (let y = round_unbounded x
      in if 2 ^ 1024 \<le> y then PosInf else if y \<le> - (2 ^ 1024) then NegInf else Fin y)"

text \<open>The real numbers that are doubles.\<close>

definition is_double :: "real \<Rightarrow> bool" where
  "is_double x = (round_double x = Fin x)"

text \<open>The operator \<open>+\<close>.\<close>

fun js_plus :: "jsnum \<Rightarrow> jsnum \<Rightarrow> jsnum" where
  "js_plus NaN _ = NaN"
| "js_plus _ NaN = NaN"
| "js_plus (Fin a) (Fin b) = round_double (a + b)"
| "js_plus PosInf NegInf = NaN"
| "js_plus NegInf PosInf = NaN"
| "js_plus PosInf _ = PosInf"
| "js_plus _ PosInf = PosInf"
| "js_plus NegInf _ = NegInf"
| "js_plus _ NegInf = NegInf"

text \<open>The operator \<open><=\<close>; \<open>a >= b\<close> is \<open>js_le b a\<close>.\<close>

fun js_le :: "jsnum \<Rightarrow> jsnum \<Rightarrow> bool" where
  "js_le NaN _ = False"
| "js_le _ NaN = False"
| "js_le NegInf _ = True"
| "js_le _ PosInf = True"
| "js_le PosInf _ = False"
| "js_le _ NegInf = False"
| "js_le (Fin a) (Fin b) = (a \<le> b)"

section \<open>PCM codec: \<open>base64EncodeAudio\<close>, lines 171 to 178\<close>

text \<open>
  The loop body of \<open>base64EncodeAudio\<close>:
  \<^verbatim>\<open>let s = Math.max(-1, Math.min(1, float32Array[i]));\<close>
  \<^verbatim>\<open>int16Array[i] = s < 0 ? s * 0x8000 : s * 0x7FFF;\<close>
\<close>

definition pcm_sample :: "jsnum \<Rightarrow> 16 word" where
  "pcm_sample x =
     (let s = Math_max (Fin (- 1)) (Math_min (Fin 1) x)
      in ToInt16 (if js_lt s (Fin 0) then js_times s (Fin 32768) else js_times s (Fin 32767)))"

text \<open>
  \<open>new Uint8Array(int16Array.buffer)\<close>: the bytes of the 16-bit elements in the byte order of
  the platform, which is little-endian on every platform that runs a browser: low byte first.
\<close>

definition int16_bytes :: "16 word list \<Rightarrow> 8 word list" where
  "int16_bytes ws = concat (map (\<lambda>w. [ucast w, ucast (drop_bit 8 w)]) ws)"

text \<open>
  The PCM stage of \<open>base64EncodeAudio\<close>: the loop runs over every index of the input and
  writes the element of the same index, so it is a map over the samples.
\<close>

definition floatToPCM16 :: "jsnum list \<Rightarrow> 8 word list" where
  "floatToPCM16 float32Array = int16_bytes (map pcm_sample float32Array)"

subsection \<open>The PCM stage in the words of the specification\<close>

definition clamp_spec :: "real \<Rightarrow> real" where
  "clamp_spec x = max (- 1) (min 1 x)"

definition scale_spec :: "real \<Rightarrow> real" where
  "scale_spec c = (if c < 0 then c * 32768 else c * 32767)"

definition floatToPCM16_spec_sample :: "real \<Rightarrow> int" where
  "floatToPCM16_spec_sample x = js_trunc (scale_spec (clamp_spec x))"

text \<open>Little-endian serialisation of a 16-bit two's complement integer.\<close>

definition le16_spec :: "int \<Rightarrow> 8 word list" where
  "le16_spec n = [word_of_int (n mod 256), word_of_int ((n div 256) mod 256)]"

definition floatToPCM16_spec :: "real list \<Rightarrow> 8 word list" where
  "floatToPCM16_spec xs = concat (map (\<lambda>x. le16_spec (floatToPCM16_spec_sample x)) xs)"

section \<open>Errors\<close>

text \<open>
  The exceptions that the platform calls of the program can raise: \<open>atob\<close> and \<open>btoa\<close>
  raise \<open>InvalidCharacterError\<close>, a typed-array constructor raises \<open>RangeError\<close>, as does
  \<open>start\<close> at a negative time, \<open>createBuffer\<close> raises \<open>NotSupportedError\<close>,
  \<open>getChannelData\<close> raises \<open>IndexSizeError\<close>, and closing a closed audio context rejects
  with \<open>InvalidStateError\<close>. \<open>NotAllowedError\<close> stands for a refused microphone.
\<close>

datatype error =
  InvalidCharacterError | RangeError | NotSupportedError | IndexSizeError
  | InvalidStateError | NotAllowedError

section \<open>Transport encoding: the platform's \<open>btoa\<close> and \<open>atob\<close>\<close>

text \<open>
  Both are functions of the browser, written here after their standard (RFC 4648 base64
  with padding for \<open>btoa\<close>, the forgiving base64 decoding of the WHATWG Infra standard for
  \<open>atob\<close>). A binary string is the list of its code units; a transport text is a
  \<open>string\<close>.
\<close>

definition b64_alphabet :: string where
  "b64_alphabet = ''ABCDEFGHIJKLMNOPQRSTUVWXYZabcdefghijklmnopqrstuvwxyz0123456789+/''"

definition b64_char :: "nat \<Rightarrow> char" where
  "b64_char n = b64_alphabet ! n"

fun index_of :: "'a \<Rightarrow> 'a list \<Rightarrow> nat option" where
  "index_of x [] = None"
| "index_of x (y # ys) = (if x = y then Some 0 else map_option Suc (index_of x ys))"

definition b64_index :: "char \<Rightarrow> nat option" where
  "b64_index c = index_of c b64_alphabet"

text \<open>Three bytes become four characters; a last group of one or two bytes is padded.\<close>

fun b64_encode :: "nat list \<Rightarrow> string" where
  "b64_encode (a # b # c # rest) =
     [b64_char (a div 4), b64_char ((a mod 4) * 16 + b div 16),
      b64_char ((b mod 16) * 4 + c div 64), b64_char (c mod 64)] @ b64_encode rest"
| "b64_encode [a, b] =
     [b64_char (a div 4), b64_char ((a mod 4) * 16 + b div 16),
      b64_char ((b mod 16) * 4), CHR ''='']"
| "b64_encode [a] = [b64_char (a div 4), b64_char ((a mod 4) * 16), CHR ''='', CHR ''='']"
| "b64_encode [] = []"

text \<open>\<open>btoa\<close> refuses a string with a code unit above 255.\<close>

definition btoa :: "nat list \<Rightarrow> error + string" where
  "btoa s = (if list_ex (\<lambda>c. 255 < c) s then Inl InvalidCharacterError else Inr (b64_encode s))"

definition ascii_whitespace :: "char \<Rightarrow> bool" where
  "ascii_whitespace c = (c \<in> set [CHR 0x09, CHR 0x0A, CHR 0x0C, CHR 0x0D, CHR 0x20])"

text \<open>
  When the length is a multiple of four, one or two \<open>=\<close> at the end are removed.
\<close>

definition strip_padding :: "string \<Rightarrow> string" where
  "strip_padding s =
     (if length s mod 4 = 0
      then (case rev s of
              c1 # c2 # r \<Rightarrow>
                if c1 = CHR ''='' then (if c2 = CHR ''='' then rev r else rev (c2 # r)) else s
            | _ \<Rightarrow> s)
      else s)"

text \<open>
  Four six-bit values become three bytes; of a last group of two or three values the
  surplus low bits are dropped. A last group of one value cannot occur: \<open>atob\<close> has refused
  that length before.
\<close>

fun b64_decode_sextets :: "nat list \<Rightarrow> nat list" where
  "b64_decode_sextets (s0 # s1 # s2 # s3 # rest) =
     [s0 * 4 + s1 div 16, (s1 mod 16) * 16 + s2 div 4, (s2 mod 4) * 64 + s3]
       @ b64_decode_sextets rest"
| "b64_decode_sextets [s0, s1, s2] = [s0 * 4 + s1 div 16, (s1 mod 16) * 16 + s2 div 4]"
| "b64_decode_sextets [s0, s1] = [s0 * 4 + s1 div 16]"
| "b64_decode_sextets _ = []"

definition atob :: "string \<Rightarrow> error + nat list" where
  "atob encoded =
     (let d = strip_padding (filter (\<lambda>c. \<not> ascii_whitespace c) encoded)
      in if length d mod 4 = 1 then Inl InvalidCharacterError
         else (case those (map b64_index d) of
                 None \<Rightarrow> Inl InvalidCharacterError
               | Some sextets \<Rightarrow> Inr (b64_decode_sextets sextets)))"

text \<open>
  The unpadded six-bit values and the number of padding characters of an encoding; they
  serve the proofs only.
\<close>

fun b64_sextets :: "nat list \<Rightarrow> nat list" where
  "b64_sextets (a # b # c # rest) =
     [a div 4, (a mod 4) * 16 + b div 16, (b mod 16) * 4 + c div 64, c mod 64] @ b64_sextets rest"
| "b64_sextets [a, b] = [a div 4, (a mod 4) * 16 + b div 16, (b mod 16) * 4]"
| "b64_sextets [a] = [a div 4, (a mod 4) * 16]"
| "b64_sextets [] = []"

fun b64_pad :: "nat list \<Rightarrow> nat" where
  "b64_pad (a # b # c # rest) = b64_pad rest"
| "b64_pad [a, b] = 1"
| "b64_pad [a] = 2"
| "b64_pad [] = 0"

section \<open>\<open>decode\<close>, lines 134 to 142, and the text stage of \<open>base64EncodeAudio\<close>\<close>

text \<open>
  \<open>decode\<close> calls \<open>atob\<close> and stores the code unit of every character into a \<open>Uint8Array\<close>
  of the same length; the store reduces modulo 256.
\<close>

definition decode :: "string \<Rightarrow> error + 8 word list" where
  "decode base64 =
     (case atob base64 of
        Inl e \<Rightarrow> Inl e
      | Inr binaryString \<Rightarrow> Inr (map (\<lambda>c. word_of_nat c) binaryString))"

text \<open>
  Lines 177 to 183 of \<open>base64EncodeAudio\<close>: \<open>String.fromCharCode\<close> of every byte, then
  \<open>btoa\<close>.
\<close>

definition bytes_to_base64 :: "8 word list \<Rightarrow> error + string" where
  "bytes_to_base64 bytes = btoa (map unat bytes)"

definition base64EncodeAudio :: "jsnum list \<Rightarrow> error + string" where
  "base64EncodeAudio float32Array = bytes_to_base64 (floatToPCM16 float32Array)"

section \<open>\<open>decodeAudioData\<close>, lines 147 to 165\<close>

text \<open>The operator \<open>/\<close>. A zero divisor is the positive zero in every use here.\<close>

fun js_divide :: "jsnum \<Rightarrow> jsnum \<Rightarrow> jsnum" where
  "js_divide NaN _ = NaN"
| "js_divide _ NaN = NaN"
| "js_divide (Fin a) (Fin b) =
     (if b = 0 then (if a = 0 then NaN else if 0 < a then PosInf else NegInf) else Fin (a / b))"
| "js_divide (Fin a) _ = Fin 0"
| "js_divide PosInf (Fin b) = (if 0 \<le> b then PosInf else NegInf)"
| "js_divide NegInf (Fin b) = (if 0 \<le> b then NegInf else PosInf)"
| "js_divide _ _ = NaN"

text \<open>
  The conversion of an argument declared \<open>unsigned long\<close>: not-a-number and the infinities
  become 0, a finite value is truncated and reduced modulo \<open>2 ^ 32\<close>.
\<close>

fun ToUint32 :: "jsnum \<Rightarrow> nat" where
  "ToUint32 (Fin x) = nat (js_trunc x mod 2 ^ 32)"
| "ToUint32 _ = 0"

text \<open>
  \<open>new Int16Array(data.buffer)\<close> views the bytes as 16-bit elements, low byte first, and
  raises \<open>RangeError\<close> when the byte length is odd. The buffer of the array that \<open>decode\<close>
  returns holds exactly its bytes.
\<close>

fun int16_view :: "8 word list \<Rightarrow> 16 word list" where
  "int16_view (lo # hi # rest) = (push_bit 8 (ucast hi) OR ucast lo) # int16_view rest"
| "int16_view _ = []"

definition new_Int16Array :: "8 word list \<Rightarrow> error + 16 word list" where
  "new_Int16Array buffer =
     (if odd (length buffer) then Inl RangeError else Inr (int16_view buffer))"

text \<open>
  Reading an element: the number it holds, or \<open>undefined\<close> beyond the end, which the
  division that follows turns into not-a-number.
\<close>

definition Int16Array_get :: "16 word list \<Rightarrow> nat \<Rightarrow> jsnum" where
  "Int16Array_get a k = (if k < length a then Fin (real_of_int (sint (a ! k))) else NaN)"

text \<open>Writing an element of a \<open>Float32Array\<close>: a write beyond the end is ignored.\<close>

definition Float32Array_set :: "jsnum list \<Rightarrow> nat \<Rightarrow> jsnum \<Rightarrow> jsnum list" where
  "Float32Array_set a k v = (if k < length a then a[k := v] else a)"

record AudioBuffer =
  sampleRate :: real
  frames :: nat
  channelData :: "jsnum list list"

text \<open>
  The attribute \<open>duration\<close> of an audio buffer: the double quotient of its length in
  frames, the attribute \<open>length\<close> that the record calls \<open>frames\<close>, by its rate.
\<close>

definition duration :: "AudioBuffer \<Rightarrow> jsnum" where
  "duration b =
     (case js_divide (Fin (real (frames b))) (Fin (sampleRate b)) of
        Fin x \<Rightarrow> round_double x
      | other \<Rightarrow> other)"

text \<open>
  \<open>createBuffer\<close> of the Web Audio standard raises \<open>NotSupportedError\<close> when an argument is
  zero or outside its nominal range. The ranges here are those that every implementation has
  to support, 1 to 32 channels and 8000 to 96000 Hz; the program asks for 24000 Hz and one
  channel. The new buffer holds silence.
\<close>

definition createBuffer :: "nat \<Rightarrow> nat \<Rightarrow> real \<Rightarrow> error + AudioBuffer" where
  "createBuffer numberOfChannels len rate =
     (if numberOfChannels = 0 \<or> 32 < numberOfChannels \<or> len = 0
         \<or> rate < 8000 \<or> 96000 < rate
      then Inl NotSupportedError
      else Inr \<lparr>sampleRate = rate, frames = len,
                channelData = replicate numberOfChannels (replicate len (Fin 0))\<rparr>)"

definition getChannelData :: "AudioBuffer \<Rightarrow> nat \<Rightarrow> error + jsnum list" where
  "getChannelData buffer channel =
     (if channel < length (channelData buffer) then Inr (channelData buffer ! channel)
      else Inl IndexSizeError)"

text \<open>
  The inner loop, \<open>for (let i = 0; i < frameCount; i++)\<close>, with \<open>frameCount\<close> a number that
  need not be an integer, and could be infinite: then the loop does not return.
\<close>

partial_function (option) frame_loop ::
  "16 word list \<Rightarrow> nat \<Rightarrow> nat \<Rightarrow> jsnum \<Rightarrow> nat \<Rightarrow> jsnum list \<Rightarrow> jsnum list option" where
  "frame_loop dataInt16 numChannels channel frameCount i cd =
     (if js_lt (Fin (real i)) frameCount
      then frame_loop dataInt16 numChannels channel frameCount (i + 1)
             (Float32Array_set cd i
                (js_divide (Int16Array_get dataInt16 (i * numChannels + channel)) (Fin 32768)))
      else Some cd)"

text \<open>
  The outer loop, \<open>for (let channel = 0; channel < numChannels; channel++)\<close>. The array that
  \<open>getChannelData\<close> returns is the channel of the buffer itself, so what the inner loop wrote
  is the channel's new content.
\<close>

function channel_loop ::
  "16 word list \<Rightarrow> nat \<Rightarrow> jsnum \<Rightarrow> nat \<Rightarrow> AudioBuffer \<Rightarrow> (error + AudioBuffer) option" where
  "channel_loop dataInt16 numChannels frameCount channel buffer =
     (if channel < numChannels
      then (case getChannelData buffer channel of
              Inl e \<Rightarrow> Some (Inl e)
            | Inr cd0 \<Rightarrow>
                (case frame_loop dataInt16 numChannels channel frameCount 0 cd0 of
                   None \<Rightarrow> None
                 | Some cd \<Rightarrow>
                     channel_loop dataInt16 numChannels frameCount (channel + 1)
                       (buffer\<lparr>channelData := (channelData buffer)[channel := cd]\<rparr>)))
      else Some (Inr buffer))"
  by pat_completeness auto
termination
  by (relation "measure (\<lambda>(dataInt16, numChannels, frameCount, channel, buffer).
        numChannels - channel)") auto

declare channel_loop.simps [simp del]

text \<open>
  \<open>decodeAudioData\<close>. The result is \<open>None\<close> when the call does not return, \<open>Some (Inl e)\<close>
  when it raises \<open>e\<close>, and \<open>Some (Inr buffer)\<close> when it returns \<open>buffer\<close>. The audio context
  only allocates the buffer and is left out.
  The parameters \<open>data\<close> and \<open>sampleRate\<close> are called \<open>bytes\<close> and \<open>rate\<close>, their names
  being those of record fields.
\<close>

definition decodeAudioData :: "8 word list \<Rightarrow> real \<Rightarrow> nat \<Rightarrow> (error + AudioBuffer) option" where
  "decodeAudioData bytes rate numChannels =
     (case new_Int16Array bytes of
        Inl e \<Rightarrow> Some (Inl e)
      | Inr dataInt16 \<Rightarrow>
          (let frameCount = js_divide (Fin (real (length dataInt16))) (Fin (real numChannels))
           in case createBuffer numChannels (ToUint32 frameCount) rate of
                Inl e \<Rightarrow> Some (Inl e)
              | Inr buffer \<Rightarrow> channel_loop dataInt16 numChannels frameCount 0 buffer))"

subsection \<open>The decoding in the words of the specification\<close>

text \<open>The value that the inner loop writes at index \<open>i\<close> of a channel.\<close>

definition frame_value :: "16 word list \<Rightarrow> nat \<Rightarrow> nat \<Rightarrow> nat \<Rightarrow> jsnum" where
  "frame_value dataInt16 numChannels channel i =
     js_divide (Int16Array_get dataInt16 (i * numChannels + channel)) (Fin 32768)"

text \<open>
  The channels that the specification describes: sample \<open>i\<close> of channel \<open>ch\<close> is the 16-bit
  value at index \<open>i * nc + ch\<close> over 32768, for every \<open>i\<close> below the number of whole frames.
\<close>

definition decoded_channels :: "8 word list \<Rightarrow> nat \<Rightarrow> jsnum list list" where
  "decoded_channels bytes nc =
     map (\<lambda>ch. map (\<lambda>i. Fin (real_of_int (sint (int16_view bytes ! (i * nc + ch))) / 32768))
                  [0..<length bytes div (2 * nc)])
         [0..<nc]"

text \<open>
  The length of the buffer that \<open>decodeAudioData\<close> allocates: the whole frames, reduced
  modulo \<open>2 ^ 32\<close> by the conversion of the argument.
\<close>

definition buffer_frames :: "8 word list \<Rightarrow> nat \<Rightarrow> nat" where
  "buffer_frames bytes nc = nat (int (length bytes div 2 div nc) mod 2 ^ 32)"

text \<open>A sample after encoding and decoding: its 16-bit value over 32768.\<close>

definition round_trip_sample :: "real \<Rightarrow> real" where
  "round_trip_sample x = real_of_int (floatToPCM16_spec_sample x) / 32768"

section \<open>The class \<open>LiveSession\<close>\<close>

text \<open>
  The fields of the class that its callbacks read and write, and a record of what the
  callbacks did to the platform: the buffers started on the output context with their start
  times, the realtime inputs sent on the connection, and the resources released, each in the
  order of the calls. The promise \<open>session\<close> is its state together with the reactions that
  \<open>then\<close> has registered while it was pending. The voice, the context text and the language
  only build the system instruction and are left out.
\<close>

datatype AudioContextState = Suspended | Running | Closed

datatype AudioNode = MediaStreamAudioSourceNode | ScriptProcessorNode

datatype PromiseState = Pending | Fulfilled | Rejected

datatype release =
  ProcessorDisconnect | InputSourceDisconnect | InputContextClose | OutputContextClose

record RealtimeInput =
  mimeType :: string
  data :: string

record LiveSession =
  session :: PromiseState
  reactions :: "RealtimeInput list"
  sent :: "RealtimeInput list"
  inputContext :: AudioContextState
  outputContext :: AudioContextState
  inputSource :: "AudioNode option"
  processor :: "AudioNode option"
  nextStartTime :: jsnum
  scheduled :: "(real \<times> AudioBuffer) list"
  released :: "release list"

text \<open>The constructor: both contexts are new, no node exists, the cursor is 0.\<close>

definition new_LiveSession :: LiveSession where
  "new_LiveSession =
     \<lparr>session = Pending, reactions = [], sent = [],
      inputContext = Running, outputContext = Running,
      inputSource = None, processor = None,
      nextStartTime = Fin 0, scheduled = [], released = []\<rparr>"

subsection \<open>The capture handler, lines 286 to 298\<close>

text \<open>
  \<open>this.session.then(s => s.sendRealtimeInput(...))\<close>: on a fulfilled promise the reaction
  runs as soon as the handler has returned, before any other event; on a pending promise
  it waits, behind the reactions registered before it; on a rejected promise it never runs.
\<close>

definition then_send :: "RealtimeInput \<Rightarrow> LiveSession \<Rightarrow> LiveSession" where
  "then_send input this =
     (case session this of
        Fulfilled \<Rightarrow> this\<lparr>sent := sent this @ [input]\<rparr>
      | Pending \<Rightarrow> this\<lparr>reactions := reactions this @ [input]\<rparr>
      | Rejected \<Rightarrow> this)"

text \<open>The connection is established: the waiting reactions run in their order.\<close>

definition session_fulfilled :: "LiveSession \<Rightarrow> LiveSession" where
  "session_fulfilled this =
     (if session this = Pending
      then this\<lparr>session := Fulfilled, sent := sent this @ reactions this, reactions := []\<rparr>
      else this)"

definition onaudioprocess :: "jsnum list \<Rightarrow> LiveSession \<Rightarrow> error + LiveSession" where
  "onaudioprocess inputData this =
     (case base64EncodeAudio inputData of
        Inl e \<Rightarrow> Inl e
      | Inr base64Data \<Rightarrow>
          Inr (then_send \<lparr>mimeType = ''audio/pcm;rate=16000'', data = base64Data\<rparr> this))"

text \<open>
  The realtime input of a frame in the words of the specification: the transport text of
  its 16-bit PCM bytes, tagged with the capture rate.
\<close>

definition frame_input :: "jsnum list \<Rightarrow> RealtimeInput" where
  "frame_input inputData =
     \<lparr>mimeType = ''audio/pcm;rate=16000'',
      data = b64_encode (map unat (floatToPCM16 inputData))\<rparr>"

text \<open>
  The frames of the capture pipeline, one event each. An exception that leaves a handler
  is reported by the platform and the next event is delivered all the same.
\<close>

fun capture :: "jsnum list list \<Rightarrow> LiveSession \<Rightarrow> LiveSession" where
  "capture [] this = this"
| "capture (inputData # rest) this =
     (case onaudioprocess inputData this of
        Inl e \<Rightarrow> capture rest this
      | Inr this' \<Rightarrow> capture rest this')"

subsection \<open>\<open>onMessage\<close>, lines 307 to 332\<close>

datatype Blob = Blob (blob_data: "string option")

datatype Part = Part (inlineData: "Blob option")

datatype Content = Content (parts: "Part list option")

datatype LiveServerContent = LiveServerContent (modelTurn: "Content option")

datatype LiveServerMessage = LiveServerMessage (serverContent: "LiveServerContent option")

text \<open>\<open>message.serverContent?.modelTurn?.parts?.[0]?.inlineData?.data\<close>\<close>

definition base64Audio_of :: "LiveServerMessage \<Rightarrow> string option" where
  "base64Audio_of message =
     (case serverContent message of
        None \<Rightarrow> None
      | Some content \<Rightarrow>
          (case modelTurn content of
             None \<Rightarrow> None
           | Some turn \<Rightarrow>
               (case parts turn of
                  None \<Rightarrow> None
                | Some [] \<Rightarrow> None
                | Some (part # _) \<Rightarrow>
                    (case inlineData part of
                       None \<Rightarrow> None
                     | Some blob \<Rightarrow> blob_data blob))))"

text \<open>A message whose first part carries the given inline data.\<close>

definition audio_message :: "string \<Rightarrow> LiveServerMessage" where
  "audio_message base64 =
     LiveServerMessage (Some (LiveServerContent (Some (Content (Some [Part (Some (Blob (Some base64)))])))))"

text \<open>
  Lines 313 to 318: \<open>decodeAudioData(decode(base64Audio), this.outputContext, 24000, 1)\<close>.
\<close>

definition decode_payload :: "string \<Rightarrow> (error + AudioBuffer) option" where
  "decode_payload base64Audio =
     (case decode base64Audio of
        Inl e \<Rightarrow> Some (Inl e)
      | Inr bytes \<Rightarrow> decodeAudioData bytes 24000 1)"

text \<open>
  Lines 320 to 326, with \<open>currentTime\<close> the reading of the output clock at line 324. The
  cursor is assigned before \<open>start\<close> is called. \<open>start\<close> raises \<open>RangeError\<close> at a negative
  time and \<open>TypeError\<close> at a time that is not finite; the exception is caught at line 328,
  with the cursor assigned and nothing started. Otherwise the buffer is started and line 326
  adds its duration to the cursor, in doubles.
\<close>

definition schedule :: "AudioBuffer \<Rightarrow> real \<Rightarrow> LiveSession \<Rightarrow> LiveSession" where
  "schedule audioBuffer currentTime this =
     (let this1 = this\<lparr>nextStartTime := Math_max (Fin currentTime) (nextStartTime this)\<rparr>
      in case nextStartTime this1 of
           Fin start \<Rightarrow>
             if start < 0 then this1
             else this1\<lparr>scheduled := scheduled this1 @ [(start, audioBuffer)],
                        nextStartTime := js_plus (Fin start) (duration audioBuffer)\<rparr>
         | other \<Rightarrow> this1)"

text \<open>
  \<open>onMessage\<close>: an absent or empty payload is falsy and skips the body; an exception of
  the decoding is caught and logged. \<open>None\<close> is a call that does not return.
  The only suspension of the call is the \<open>await\<close> of a promise that is settled already,
  so the bodies of the calls for successive messages run one after the other in the order
  of receipt.
\<close>

definition onMessage :: "LiveServerMessage \<Rightarrow> real \<Rightarrow> LiveSession \<Rightarrow> LiveSession option" where
  "onMessage message currentTime this =
     (case base64Audio_of message of
        None \<Rightarrow> Some this
      | Some base64Audio \<Rightarrow>
          if base64Audio = [] then Some this
          else (case decode_payload base64Audio of
                  None \<Rightarrow> None
                | Some (Inl e) \<Rightarrow> Some this
                | Some (Inr audioBuffer) \<Rightarrow> Some (schedule audioBuffer currentTime this)))"

text \<open>
  The inbound messages in the order of their receipt, each with the reading of the output
  clock when it is scheduled.
\<close>

fun run_messages :: "(LiveServerMessage \<times> real) list \<Rightarrow> LiveSession \<Rightarrow> LiveSession option" where
  "run_messages [] this = Some this"
| "run_messages ((message, currentTime) # rest) this =
     (case onMessage message currentTime this of
        None \<Rightarrow> None
      | Some this' \<Rightarrow> run_messages rest this')"

subsection \<open>The scheduling invariant\<close>

text \<open>
  The end of a started buffer as the program computes it: its start plus its duration, the
  value that line 326 gives the cursor.
\<close>

definition scheduled_end :: "real \<times> AudioBuffer \<Rightarrow> jsnum" where
  "scheduled_end unit = js_plus (Fin (fst unit)) (duration (snd unit))"

text \<open>No buffer in the list starts before the end of an earlier one.\<close>

fun no_overlap :: "(real \<times> AudioBuffer) list \<Rightarrow> bool" where
  "no_overlap [] = True"
| "no_overlap (unit # rest) =
     (list_all (\<lambda>later. js_le (scheduled_end unit) (Fin (fst later))) rest \<and> no_overlap rest)"

text \<open>The cursor lies at or after the end of every buffer in the list.\<close>

definition cursor_covers :: "LiveSession \<Rightarrow> bool" where
  "cursor_covers this =
     list_all (\<lambda>unit. js_le (scheduled_end unit) (nextStartTime this)) (scheduled this)"

text \<open>The cursor is a double or has overflowed to infinity.\<close>

definition cursor_is_double :: "LiveSession \<Rightarrow> bool" where
  "cursor_is_double this =
     (case nextStartTime this of Fin c \<Rightarrow> is_double c | PosInf \<Rightarrow> True | other \<Rightarrow> False)"

subsection \<open>\<open>disconnect\<close>, lines 334 to 350\<close>

text \<open>
  \<open>close\<close> of an audio context, after the Web Audio standard: on a closed context the
  promise is rejected with \<open>InvalidStateError\<close>.
\<close>

definition AudioContext_close :: "AudioContextState \<Rightarrow> error + AudioContextState" where
  "AudioContext_close state = (if state = Closed then Inl InvalidStateError else Inr Closed)"

text \<open>
  \<open>disconnect\<close> returns the error that rejects its promise, if any, and the session as the
  call leaves it. An \<open>await\<close> of a rejected promise ends the call there.
\<close>

definition disconnect :: "LiveSession \<Rightarrow> error option \<times> LiveSession" where
  "disconnect this =
     (let this1 = (if processor this \<noteq> None
                   then this\<lparr>processor := None,
                             released := released this @ [ProcessorDisconnect]\<rparr>
                   else this);
          this2 = (if inputSource this1 \<noteq> None
                   then this1\<lparr>inputSource := None,
                              released := released this1 @ [InputSourceDisconnect]\<rparr>
                   else this1)
      in case AudioContext_close (inputContext this2) of
           Inl e \<Rightarrow> (Some e, this2)
         | Inr state1 \<Rightarrow>
             (let this3 = this2\<lparr>inputContext := state1,
                                 released := released this2 @ [InputContextClose]\<rparr>
              in case AudioContext_close (outputContext this3) of
                   Inl e \<Rightarrow> (Some e, this3)
                 | Inr state2 \<Rightarrow>
                     (None, this3\<lparr>outputContext := state2,
                                   released := released this3 @ [OutputContextClose]\<rparr>)))"

section \<open>Properties of the rounding\<close>

lemma round_half_even_of_int: "round_half_even (of_int n) = n"
  by (simp add: round_half_even_def)

lemma round_half_even_bounds: "\<lfloor>y\<rfloor> \<le> round_half_even y \<and> round_half_even y \<le> \<lfloor>y\<rfloor> + 1"
  by (simp add: round_half_even_def Let_def)

lemma round_half_even_mono:
  assumes "x \<le> y"
  shows "round_half_even x \<le> round_half_even y"
proof (cases "\<lfloor>x\<rfloor> = \<lfloor>y\<rfloor>")
  case True
  then have "x - of_int \<lfloor>x\<rfloor> \<le> y - of_int \<lfloor>y\<rfloor>"
    using assms by simp
  then show ?thesis
    using True by (auto simp add: round_half_even_def Let_def)
next
  case False
  then have "\<lfloor>x\<rfloor> < \<lfloor>y\<rfloor>"
    using floor_mono [OF assms] by linarith
  then have "\<lfloor>x\<rfloor> + 1 \<le> \<lfloor>y\<rfloor>"
    by simp
  then show ?thesis
    using round_half_even_bounds [of x] round_half_even_bounds [of y] by linarith
qed

lemma round_half_even_small: "0 \<le> y \<Longrightarrow> y < 1 / 2 \<Longrightarrow> round_half_even y = 0"
proof -
  assume a: "0 \<le> y" "y < 1 / 2"
  then have "\<lfloor>y\<rfloor> = 0" by (simp add: floor_eq_iff)
  then show ?thesis using a by (simp add: round_half_even_def)
qed

lemma binade_bounds:
  assumes "0 < x"
  shows "2 powi binade x \<le> x \<and> x < 2 powi (binade x + 1)"
proof (cases "1 \<le> x")
  case True
  let ?n = "\<lfloor>x\<rfloor>"
  have pos: "0 < ?n" using True by simp
  have b1: "1 \<le> bitlen ?n"
    using pos by (simp add: bitlen_alt_def)
  from bitlen_bounds [OF pos]
  have lo: "2 ^ nat (bitlen ?n - 1) \<le> ?n" and hi: "?n < 2 ^ nat (bitlen ?n)"
    by simp_all
  have "(2 :: real) ^ nat (bitlen ?n - 1) = of_int (2 ^ nat (bitlen ?n - 1))"
    by simp
  also have "\<dots> \<le> of_int ?n"
    using lo by (simp only: of_int_le_iff)
  also have "\<dots> \<le> x"
    by simp
  finally have 1: "2 powi (bitlen ?n - 1) \<le> x"
    using b1 by (simp add: power_int_def)
  have "?n + 1 \<le> 2 ^ nat (bitlen ?n)"
    using hi by simp
  then have "of_int (?n + 1) \<le> (of_int (2 ^ nat (bitlen ?n)) :: real)"
    by (simp only: of_int_le_iff)
  then have "real_of_int ?n + 1 \<le> 2 ^ nat (bitlen ?n)"
    by simp
  moreover have "x < real_of_int ?n + 1"
    by linarith
  ultimately have "x < 2 ^ nat (bitlen ?n)"
    by (rule less_le_trans [rotated])
  then have 2: "x < 2 powi (bitlen ?n - 1 + 1)"
    using b1 by (simp add: power_int_def)
  from 1 2 True show ?thesis
    by (simp add: binade_def)
next
  case False
  then have lt: "x < 1" by simp
  let ?n = "\<lceil>1 / x\<rceil>"
  let ?l = "bitlen (?n - 1)"
  have "1 < 1 / x"
    using assms lt by simp
  then have n2: "2 \<le> ?n"
    by (simp add: le_ceiling_iff)
  then have pos: "0 < ?n - 1" by simp
  then have l1: "1 \<le> ?l"
    by (simp add: bitlen_alt_def)
  from bitlen_bounds [OF pos]
  have lo: "2 ^ nat (?l - 1) \<le> ?n - 1" and hi: "?n - 1 < 2 ^ nat ?l"
    by simp_all
  have "?n \<le> 2 ^ nat ?l"
    using hi by simp
  then have "(of_int ?n :: real) \<le> of_int (2 ^ nat ?l)"
    by (simp only: of_int_le_iff)
  then have "real_of_int ?n \<le> 2 ^ nat ?l"
    by simp
  moreover have "1 / x \<le> real_of_int ?n"
    by (rule le_of_int_ceiling)
  ultimately have "1 / x \<le> 2 ^ nat ?l"
    by (rule order_trans [rotated])
  then have "1 / 2 ^ nat ?l \<le> x"
    using assms by (simp add: field_simps)
  then have 1: "2 powi (- ?l) \<le> x"
    using l1 by (simp add: power_int_def field_simps)
  have "2 ^ nat (?l - 1) < ?n"
    using lo by simp
  then have "(of_int (2 ^ nat (?l - 1)) :: real) < 1 / x"
    by (simp only: less_ceiling_iff)
  then have "x * 2 ^ nat (?l - 1) < 1"
    using assms by (simp add: field_simps)
  then have "x < 1 / 2 ^ nat (?l - 1)"
    by (simp add: field_simps)
  then have 2: "x < 2 powi (- ?l + 1)"
    using l1 by (auto simp add: power_int_def field_simps nat_diff_distrib)
  from 1 2 False show ?thesis
    by (simp add: binade_def)
qed


lemma binade_less:
  assumes "0 < x" and "x < 2 powi n"
  shows "binade x < n"
proof (rule ccontr)
  assume "\<not> binade x < n"
  then have "(2 :: real) powi n \<le> 2 powi binade x"
    by (intro power_int_increasing) simp_all
  with binade_bounds [OF assms(1)] assms(2) show False
    by linarith
qed

lemma binade_greater:
  assumes "0 < x" and "2 powi n \<le> x"
  shows "n \<le> binade x"
proof (rule ccontr)
  assume "\<not> n \<le> binade x"
  then have "(2 :: real) powi (binade x + 1) \<le> 2 powi n"
    by (intro power_int_increasing) simp_all
  with binade_bounds [OF assms(1)] assms(2) show False
    by linarith
qed

lemma binade_mono:
  assumes "0 < x" and "x \<le> y"
  shows "binade x \<le> binade y"
proof -
  have "2 powi binade x \<le> y"
    using binade_bounds [OF assms(1)] assms(2) by linarith
  then show ?thesis
    using assms by (intro binade_greater) simp_all
qed

lemma quantum_pos: "0 < quantum x"
  by (simp add: quantum_def)

lemma two_powi_of_int:
  assumes "0 \<le> n"
  shows "(2 :: real) powi n = of_int (2 ^ nat n)"
  using assms by (simp add: power_int_def)

lemma two_powi_diff: "(2 :: real) powi a / 2 powi b = 2 powi (a - b)"
  by (simp add: power_int_diff)

lemma round_unbounded_nonneg:
  assumes "0 \<le> x"
  shows "0 \<le> round_unbounded x"
proof -
  have "0 \<le> x / quantum x"
    using assms quantum_pos [of x] by simp
  then have "0 \<le> \<lfloor>x / quantum x\<rfloor>"
    by simp
  then have "0 \<le> round_half_even (x / quantum x)"
    using round_half_even_bounds [of "x / quantum x"] by linarith
  then show ?thesis
    using quantum_pos [of x] by (simp add: round_unbounded_def)
qed

lemma round_unbounded_upper:
  assumes "0 < x" and "- 1075 \<le> binade x"
  shows "round_unbounded x \<le> 2 powi (binade x + 1)"
proof -
  let ?k = "max (binade x - 52) (- 1074)"
  let ?q = "(2 :: real) powi ?k"
  have q: "quantum x = ?q"
    using assms(1) by (simp add: quantum_def)
  have d: "0 \<le> binade x + 1 - ?k"
    using assms(2) by simp
  have "x / ?q \<le> 2 powi (binade x + 1) / ?q"
    using binade_bounds [OF assms(1)] by (simp add: divide_right_mono)
  also have "\<dots> = of_int (2 ^ nat (binade x + 1 - ?k))"
    unfolding two_powi_diff using d by (rule two_powi_of_int)
  finally have "round_half_even (x / ?q) \<le> 2 ^ nat (binade x + 1 - ?k)"
    using round_half_even_mono round_half_even_of_int by metis
  then have "real_of_int (round_half_even (x / ?q)) \<le> of_int (2 ^ nat (binade x + 1 - ?k))"
    by (simp only: of_int_le_iff)
  then have "real_of_int (round_half_even (x / ?q)) \<le> 2 powi (binade x + 1 - ?k)"
    using d by (simp only: two_powi_of_int)
  then have "real_of_int (round_half_even (x / ?q)) * ?q \<le> 2 powi (binade x + 1 - ?k) * ?q"
    by (intro mult_right_mono) simp_all
  also have "\<dots> = 2 powi (binade x + 1)"
    by (simp add: power_int_add [symmetric])
  finally show ?thesis
    using assms(1) by (simp add: round_unbounded_def q)
qed

lemma round_unbounded_tiny:
  assumes "0 < x" and "binade x < - 1075"
  shows "round_unbounded x = 0"
proof -
  have q: "quantum x = 2 powi (- 1074)"
    using assms by (simp add: quantum_def max_def)
  have "x < 2 powi (binade x + 1)"
    using binade_bounds [OF assms(1)] by simp
  also have "\<dots> \<le> 2 powi (- 1075)"
    using assms(2) by (intro power_int_increasing) simp_all
  finally have "x / 2 powi (- 1074) < 2 powi (- 1075) / 2 powi (- 1074)"
    by (simp add: divide_strict_right_mono)
  also have "\<dots> = 1 / 2"
    unfolding two_powi_diff by simp
  finally have "round_half_even (x / 2 powi (- 1074)) = 0"
    using assms(1) by (intro round_half_even_small) simp_all
  then show ?thesis
    by (simp add: round_unbounded_def q)
qed

lemma round_unbounded_lower:
  assumes "0 < x" and "- 1074 \<le> binade x"
  shows "2 powi binade x \<le> round_unbounded x"
proof -
  let ?k = "max (binade x - 52) (- 1074)"
  let ?q = "(2 :: real) powi ?k"
  have q: "quantum x = ?q"
    using assms(1) by (simp add: quantum_def)
  have d: "0 \<le> binade x - ?k"
    using assms(2) by simp
  have "of_int (2 ^ nat (binade x - ?k)) = 2 powi binade x / ?q"
    unfolding two_powi_diff using d by (rule two_powi_of_int [symmetric])
  also have "\<dots> \<le> x / ?q"
    using binade_bounds [OF assms(1)] by (simp add: divide_right_mono)
  finally have "2 ^ nat (binade x - ?k) \<le> round_half_even (x / ?q)"
    using round_half_even_mono round_half_even_of_int by metis
  then have "of_int (2 ^ nat (binade x - ?k)) \<le> real_of_int (round_half_even (x / ?q))"
    by (simp only: of_int_le_iff)
  then have "2 powi (binade x - ?k) \<le> real_of_int (round_half_even (x / ?q))"
    using d by (simp only: two_powi_of_int)
  then have "2 powi (binade x - ?k) * ?q \<le> real_of_int (round_half_even (x / ?q)) * ?q"
    by (intro mult_right_mono) simp_all
  moreover have "2 powi (binade x - ?k) * ?q = 2 powi binade x"
    by (simp add: power_int_add [symmetric])
  ultimately show ?thesis
    using assms(1) by (simp add: round_unbounded_def q)
qed

lemma round_unbounded_mono:
  assumes "0 \<le> x" and "x \<le> y"
  shows "round_unbounded x \<le> round_unbounded y"
proof (cases "x = 0")
  case True
  then show ?thesis
    using round_unbounded_nonneg [of y] assms by (simp add: round_unbounded_def)
next
  case False
  then have x: "0 < x" and y: "0 < y"
    using assms by simp_all
  have le: "binade x \<le> binade y"
    using x assms(2) by (rule binade_mono)
  show ?thesis
  proof (cases "binade x = binade y")
    case True
    then have q: "quantum y = quantum x"
      using x y by (simp add: quantum_def)
    have "x / quantum x \<le> y / quantum x"
      using assms(2) quantum_pos [of x] by (simp add: divide_right_mono)
    then have "round_half_even (x / quantum x) \<le> round_half_even (y / quantum x)"
      by (rule round_half_even_mono)
    then have "real_of_int (round_half_even (x / quantum x)) * quantum x
        \<le> real_of_int (round_half_even (y / quantum x)) * quantum x"
      using quantum_pos [of x] by (intro mult_right_mono) simp_all
    then show ?thesis
      using x y by (simp add: round_unbounded_def q)
  next
    case False
    with le have lt: "binade x + 1 \<le> binade y"
      by simp
    show ?thesis
    proof (cases "binade x < - 1075")
      case True
      then show ?thesis
        using round_unbounded_tiny [OF x] round_unbounded_nonneg [of y] y by simp
    next
      case False
      then have "round_unbounded x \<le> 2 powi (binade x + 1)"
        using x by (intro round_unbounded_upper) simp_all
      also have "\<dots> \<le> 2 powi binade y"
        using lt by (intro power_int_increasing) simp_all
      also have "\<dots> \<le> round_unbounded y"
        using y False lt by (intro round_unbounded_lower) simp_all
      finally show ?thesis .
    qed
  qed
qed

lemma round_unbounded_fixed:
  assumes "0 < y" and "y = of_int m * 2 powi j" and "max (binade y - 52) (- 1074) \<le> j"
  shows "round_unbounded y = y"
proof -
  let ?k = "max (binade y - 52) (- 1074)"
  have q: "quantum y = 2 powi ?k"
    using assms(1) by (simp add: quantum_def)
  have "y / 2 powi ?k = of_int m * (2 powi j / 2 powi ?k)"
    using assms(2) by simp
  also have "\<dots> = of_int m * of_int (2 ^ nat (j - ?k))"
    unfolding two_powi_diff using assms(3) by (simp only: two_powi_of_int)
  also have "\<dots> = of_int (m * 2 ^ nat (j - ?k))"
    by simp
  finally have "round_half_even (y / 2 powi ?k) = m * 2 ^ nat (j - ?k)"
    by (simp only: round_half_even_of_int)
  then have "real_of_int (round_half_even (y / 2 powi ?k)) * 2 powi ?k
      = of_int m * (of_int (2 ^ nat (j - ?k)) * 2 powi ?k)"
    by simp
  also have "of_int (2 ^ nat (j - ?k)) * 2 powi ?k = (2 :: real) powi j"
  proof -
    have "0 \<le> j - ?k"
      using assms(3) by simp
    then have "of_int (2 ^ nat (j - ?k)) = (2 :: real) powi (j - ?k)"
      by (rule two_powi_of_int [symmetric])
    moreover have "(2 :: real) powi (j - ?k) * 2 powi ?k = 2 powi (j - ?k + ?k)"
      by (rule power_int_add [symmetric]) simp
    ultimately show ?thesis
      by simp
  qed
  finally have "real_of_int (round_half_even (y / 2 powi ?k)) * 2 powi ?k = y"
    by (simp only: assms(2) [symmetric])
  moreover have "y \<noteq> 0"
    using assms(1) by simp
  ultimately show ?thesis
    unfolding round_unbounded_def q by (simp only: if_False)
qed


lemma round_unbounded_idem:
  assumes "0 \<le> x"
  shows "round_unbounded (round_unbounded x) = round_unbounded x"
proof (cases "round_unbounded x = 0")
  case True
  then show ?thesis by (simp add: round_unbounded_def)
next
  case False
  let ?y = "round_unbounded x"
  let ?k = "max (binade x - 52) (- 1074)"
  have y: "0 < ?y"
    using False round_unbounded_nonneg [OF assms] by simp
  have x: "0 < x"
    using False assms by (cases "x = 0") (simp_all add: round_unbounded_def)
  have e: "- 1075 \<le> binade x"
    using False round_unbounded_tiny [OF x] by (cases "binade x < - 1075") simp_all
  have form: "?y = of_int (round_half_even (x / 2 powi ?k)) * 2 powi ?k"
    using x by (simp add: round_unbounded_def quantum_def)
  have upper: "?y \<le> 2 powi (binade x + 1)"
    using x e by (rule round_unbounded_upper)
  show ?thesis
  proof (cases "?y = 2 powi (binade x + 1)")
    case True
    have "?y < 2 powi (binade x + 2)"
      unfolding True by (intro power_int_strict_increasing) simp_all
    then have "binade ?y < binade x + 2"
      using y by (intro binade_less)
    then have "max (binade ?y - 52) (- 1074) \<le> binade x + 1"
      using e by simp
    moreover have "?y = of_int 1 * 2 powi (binade x + 1)"
      using True by simp
    ultimately show ?thesis
      using y by (intro round_unbounded_fixed)
  next
    case False
    with upper have "?y < 2 powi (binade x + 1)"
      by simp
    then have "binade ?y < binade x + 1"
      using y by (intro binade_less)
    then have "max (binade ?y - 52) (- 1074) \<le> ?k"
      by simp
    with y form show ?thesis
      by (intro round_unbounded_fixed)
  qed
qed

lemma round_double_cases:
  "round_double x =
     (if 2 ^ 1024 \<le> round_unbounded x then PosInf
      else if round_unbounded x \<le> - (2 ^ 1024) then NegInf
      else Fin (round_unbounded x))"
  by (simp add: round_double_def Let_def)

lemma is_double_iff:
  "is_double x \<longleftrightarrow> round_unbounded x = x \<and> x < 2 ^ 1024 \<and> - (2 ^ 1024) < x"
  by (auto simp add: is_double_def round_double_cases)

lemma js_le_trans: "js_le a b \<Longrightarrow> js_le b c \<Longrightarrow> js_le a c"
  by (cases a; cases b; cases c) simp_all

lemma js_le_refl: "a \<noteq> NaN \<Longrightarrow> js_le a a"
  by (cases a) simp_all

lemma round_double_not_NaN: "round_double x \<noteq> NaN"
  by (simp add: round_double_cases)

lemma round_double_sum:
  assumes "is_double t" and "0 \<le> t" and "0 \<le> d"
  shows "js_le (Fin t) (round_double (t + d))
     \<and> (round_double (t + d) = PosInf
          \<or> (\<exists>c. round_double (t + d) = Fin c \<and> is_double c \<and> 0 \<le> c))"
proof -
  let ?y = "round_unbounded (t + d)"
  have t: "round_unbounded t = t" and small: "t < 2 ^ 1024"
    using assms(1) by (simp_all add: is_double_iff)
  have "round_unbounded t \<le> ?y"
    using assms(2,3) by (intro round_unbounded_mono) simp_all
  then have le: "t \<le> ?y"
    by (simp only: t)
  then have nonneg: "0 \<le> ?y"
    using assms(2) by linarith
  have idem: "round_unbounded ?y = ?y"
    using assms(2,3) by (intro round_unbounded_idem) simp
  show ?thesis
  proof (cases "2 ^ 1024 \<le> ?y")
    case True
    then show ?thesis
      by (simp add: round_double_cases)
  next
    case False
    then have r: "round_double (t + d) = Fin ?y"
      using nonneg by (simp add: round_double_cases)
    have "is_double ?y"
      using False nonneg idem by (simp add: is_double_iff)
    with r le nonneg show ?thesis
      by simp
  qed
qed

lemma round_half_even_nearest:
  assumes "real_of_int m - 1 / 2 < y" and "y < real_of_int m + 1 / 2"
  shows "round_half_even y = m"
proof (cases "real_of_int m \<le> y")
  case True
  then have "\<lfloor>y\<rfloor> = m"
    using assms(2) by (simp add: floor_eq_iff)
  then show ?thesis
    using assms(2) by (simp add: round_half_even_def)
next
  case False
  then have "\<lfloor>y\<rfloor> = m - 1"
    using assms(1) by (simp add: floor_eq_iff)
  then show ?thesis
    using assms(1) by (simp add: round_half_even_def)
qed

lemma round_double_nearest:
  assumes "0 < x" and "2 powi e \<le> x" and "x < 2 powi (e + 1)"
    and "k = max (e - 52) (- 1074)"
    and "real_of_int m - 1 / 2 < x / 2 powi k" and "x / 2 powi k < real_of_int m + 1 / 2"
    and "y = real_of_int m * 2 powi k" and "0 \<le> y" and "y < 2 ^ 1024"
  shows "round_double x = Fin y"
proof -
  have "e \<le> binade x"
    using assms(1,2) by (rule binade_greater)
  moreover have "binade x < e + 1"
    using assms(1,3) by (rule binade_less)
  ultimately have "binade x = e"
    by simp
  then have "quantum x = 2 powi k"
    using assms(1,4) by (simp add: quantum_def)
  moreover have "round_half_even (x / 2 powi k) = m"
    using assms(5,6) by (rule round_half_even_nearest)
  ultimately have "round_unbounded x = y"
    using assms(1,7) by (simp add: round_unbounded_def)
  then show ?thesis
    using assms(8,9) by (simp add: round_double_cases)
qed

section \<open>Properties of the PCM codec\<close>

lemma clamp_spec_range: "- 1 \<le> clamp_spec x \<and> clamp_spec x \<le> 1"
  by (simp add: clamp_spec_def)

lemma scale_spec_range:
  assumes "- 1 \<le> c" and "c \<le> 1"
  shows "- 32768 \<le> scale_spec c \<and> scale_spec c \<le> 32767"
  using assms by (simp add: scale_spec_def)

lemma js_trunc_range:
  assumes "- 32768 \<le> y" and "y \<le> 32767"
  shows "- 32768 \<le> js_trunc y \<and> js_trunc y \<le> 32767"
proof (cases "y < 0")
  case True
  have "\<lceil>- 32768 :: real\<rceil> \<le> \<lceil>y\<rceil>"
    using assms(1) by (rule ceiling_mono)
  moreover have "\<lceil>y\<rceil> \<le> 0"
    using True by (simp add: ceiling_le_iff)
  ultimately show ?thesis
    using True by (simp add: js_trunc_def)
next
  case False
  have "\<lfloor>y\<rfloor> \<le> \<lfloor>32767 :: real\<rfloor>"
    using assms(2) by (rule floor_mono)
  moreover have "0 \<le> \<lfloor>y\<rfloor>"
    using False by simp
  ultimately show ?thesis
    using False by (simp add: js_trunc_def)
qed

lemma spec_sample_range:
  "- 32768 \<le> floatToPCM16_spec_sample x \<and> floatToPCM16_spec_sample x \<le> 32767"
  unfolding floatToPCM16_spec_sample_def
  using scale_spec_range [of "clamp_spec x"] clamp_spec_range [of x] js_trunc_range
  by blast

lemma pcm_sample_Fin:
  "pcm_sample (Fin x) = word_of_int (floatToPCM16_spec_sample x)"
  by (auto simp add: pcm_sample_def floatToPCM16_spec_sample_def scale_spec_def
      clamp_spec_def Let_def min_def max_def)

lemma sint_pcm_sample_Fin: "sint (pcm_sample (Fin x)) = floatToPCM16_spec_sample x"
proof -
  have "sint (word_of_int (floatToPCM16_spec_sample x) :: 16 word)
      = floatToPCM16_spec_sample x"
    using spec_sample_range [of x]
    by (simp add: sint_sbintrunc' signed_take_bit_int_eq_self)
  then show ?thesis
    by (simp add: pcm_sample_Fin)
qed

lemma ucast_low_byte: "(ucast (word_of_int n :: 16 word) :: 8 word) = word_of_int (n mod 256)"
proof -
  have e: "n mod 256 = take_bit 8 n"
    by (simp add: take_bit_eq_mod)
  show ?thesis
    unfolding e by (rule bit_word_eqI) (auto simp add: bit_simps)
qed

lemma ucast_high_byte:
  "(ucast (drop_bit 8 (word_of_int n :: 16 word)) :: 8 word) = word_of_int ((n div 256) mod 256)"
proof -
  have e: "n div 256 mod 256 = take_bit 8 (drop_bit 8 n)"
    by (simp add: take_bit_eq_mod drop_bit_eq_div)
  show ?thesis
    unfolding e by (rule bit_word_eqI) (auto simp add: bit_simps)
qed

lemma floatToPCM16_refines_spec: "floatToPCM16 (map Fin xs) = floatToPCM16_spec xs"
  by (induction xs)
    (simp_all add: floatToPCM16_def floatToPCM16_spec_def int16_bytes_def le16_spec_def
      pcm_sample_Fin ucast_low_byte ucast_high_byte)

lemma length_floatToPCM16: "length (floatToPCM16 ys) = 2 * length ys"
  by (induction ys) (simp_all add: floatToPCM16_def int16_bytes_def)

lemma pcm_sample_not_finite:
  "pcm_sample PosInf = 32767 \<and> pcm_sample NegInf = - 32768 \<and> pcm_sample NaN = 0"
  by (simp add: pcm_sample_def js_trunc_def)

section \<open>Properties of the transport encoding\<close>

lemma b64_alphabet_distinct: "distinct b64_alphabet"
  by (simp add: b64_alphabet_def)

lemma b64_alphabet_length: "length b64_alphabet = 64"
  by (simp add: b64_alphabet_def)

lemma index_of_nth: "distinct xs \<Longrightarrow> n < length xs \<Longrightarrow> index_of (xs ! n) xs = Some n"
proof (induction xs arbitrary: n)
  case Nil
  then show ?case by simp
next
  case (Cons y ys)
  show ?case
  proof (cases n)
    case 0
    then show ?thesis by simp
  next
    case (Suc m)
    with Cons.prems have "ys ! m \<noteq> y" and "index_of (ys ! m) ys = Some m"
      using Cons.IH [of m] by auto
    with Suc show ?thesis by simp
  qed
qed

lemma b64_index_char: "n < 64 \<Longrightarrow> b64_index (b64_char n) = Some n"
  by (simp add: b64_index_def b64_char_def index_of_nth b64_alphabet_distinct b64_alphabet_length)

lemma b64_alphabet_plain: "\<forall>c \<in> set b64_alphabet. c \<noteq> CHR ''='' \<and> \<not> ascii_whitespace c"
  by (simp add: b64_alphabet_def ascii_whitespace_def)

lemma b64_char_plain: "n < 64 \<Longrightarrow> b64_char n \<noteq> CHR ''='' \<and> \<not> ascii_whitespace (b64_char n)"
  using b64_alphabet_plain nth_mem [of n b64_alphabet]
  unfolding b64_char_def b64_alphabet_length by blast

lemma b64_encode_split:
  "b64_encode bs = map b64_char (b64_sextets bs) @ replicate (b64_pad bs) CHR ''=''"
  by (induction bs rule: b64_encode.induct) (simp_all add: numeral_2_eq_2)

lemma b64_sextets_bound: "\<forall>b \<in> set bs. b < 256 \<Longrightarrow> \<forall>s \<in> set (b64_sextets bs). s < 64"
  by (induction bs rule: b64_sextets.induct) (auto simp add: div_less_iff_less_mult)

lemma b64_decode_sextets_inverse:
  "\<forall>b \<in> set bs. b < 256 \<Longrightarrow> b64_decode_sextets (b64_sextets bs) = bs"
  by (induction bs rule: b64_sextets.induct) (auto simp add: div_less_iff_less_mult)


lemma b64_lengths:
  "(length (b64_sextets bs) + b64_pad bs) mod 4 = 0 \<and> b64_pad bs \<le> 2
     \<and> length (b64_sextets bs) mod 4 \<noteq> 1"
  by (induction bs rule: b64_sextets.induct) simp_all

lemma strip_padding_replicate:
  assumes "(length xs + k) mod 4 = 0" and "k \<le> 2" and "\<forall>c \<in> set xs. c \<noteq> CHR ''=''"
  shows "strip_padding (xs @ replicate k CHR ''='') = xs"
proof -
  consider "k = 0" | "k = 1" | "k = 2"
    using assms(2) by linarith
  then show ?thesis
  proof cases
    case 1
    have "(case rev xs of
             c1 # c2 # r \<Rightarrow>
               if c1 = CHR ''='' then (if c2 = CHR ''='' then rev r else rev (c2 # r)) else xs
           | _ \<Rightarrow> xs) = xs"
    proof (cases "rev xs")
      case Nil
      then show ?thesis by simp
    next
      case (Cons c1 r1)
      then have "c1 \<in> set xs"
        by (metis list.set_intros(1) set_rev)
      with assms(3) have "c1 \<noteq> CHR ''=''" by blast
      with Cons show ?thesis by (cases r1) simp_all
    qed
    with 1 show ?thesis by (simp add: strip_padding_def)
  next
    case 2
    with assms(1) have "xs \<noteq> []" by (cases xs) auto
    then obtain c2 r where r: "rev xs = c2 # r"
      by (cases "rev xs") auto
    then have "c2 \<in> set xs"
      by (metis list.set_intros(1) set_rev)
    with assms(3) have ne: "c2 \<noteq> CHR ''=''" by blast
    have "rev (c2 # r) = xs"
      using r by (metis rev_rev_ident)
    with 2 assms(1) r ne show ?thesis
      by (simp add: strip_padding_def)
  next
    case 2: 3
    have "rev (xs @ replicate k CHR ''='') = CHR ''='' # CHR ''='' # rev xs"
      using 2 by (simp add: numeral_2_eq_2)
    with 2 assms(1) show ?thesis
      by (simp add: strip_padding_def)
  qed
qed

lemma those_b64_index: "\<forall>s \<in> set sx. s < 64 \<Longrightarrow> those (map b64_index (map b64_char sx)) = Some sx"
  by (induction sx) (simp_all add: b64_index_char)

lemma atob_b64_encode:
  assumes "\<forall>b \<in> set bs. b < 256"
  shows "atob (b64_encode bs) = Inr bs"
proof -
  let ?body = "map b64_char (b64_sextets bs)"
  have small: "\<forall>s \<in> set (b64_sextets bs). s < 64"
    using assms by (rule b64_sextets_bound)
  have plain: "\<forall>c \<in> set ?body. c \<noteq> CHR ''='' \<and> \<not> ascii_whitespace c"
    using small b64_char_plain by auto
  have eq_ws: "\<not> ascii_whitespace CHR ''=''"
    by (simp add: ascii_whitespace_def)
  have "filter (\<lambda>c. \<not> ascii_whitespace c) (b64_encode bs) = ?body @ replicate (b64_pad bs) CHR ''=''"
    using plain eq_ws by (simp add: b64_encode_split)
  moreover have "strip_padding (?body @ replicate (b64_pad bs) CHR ''='') = ?body"
    using b64_lengths [of bs] plain
    by (intro strip_padding_replicate) simp_all
  moreover have "length ?body mod 4 \<noteq> 1"
    using b64_lengths [of bs] by simp
  moreover have "those (map b64_index ?body) = Some (b64_sextets bs)"
    using small by (rule those_b64_index)
  moreover have "b64_decode_sextets (b64_sextets bs) = bs"
    using assms by (rule b64_decode_sextets_inverse)
  ultimately show ?thesis
    by (simp add: atob_def)
qed

lemma btoa_bytes: "btoa (map unat (bytes :: 8 word list)) = Inr (b64_encode (map unat bytes))"
proof -
  have "\<not> 255 < unat b" for b :: "8 word"
    using unsigned_less [of b, where 'a = nat] by simp
  then show ?thesis
    by (simp add: btoa_def list_ex_iff)
qed

text \<open>
  Claim C5. The transport text encoding is left-invertible on every byte sequence: encoding
  bytes as lines 177 to 183 do never fails, and \<open>decode\<close> of the text gives the bytes back.
\<close>

theorem transport_round_trip:
  "\<exists>text. bytes_to_base64 b = Inr text \<and> decode text = Inr b"
proof -
  have bound: "\<forall>c \<in> set (map unat b). c < 256"
    using unsigned_less [where 'b = 8 and 'a = nat] by auto
  have "atob (b64_encode (map unat b)) = Inr (map unat b)"
    using bound by (rule atob_b64_encode)
  then have "decode (b64_encode (map unat b)) = Inr b"
    by (simp add: decode_def comp_def)
  then show ?thesis
    by (simp add: bytes_to_base64_def btoa_bytes)
qed

theorem transport_round_trip_witness:
  "bytes_to_base64 [77, 97, 110, 33] = Inr ''TWFuIQ=='' \<and> decode ''TWFuIQ=='' = Inr [77, 97, 110, 33]"
proof -
  have enc: "bytes_to_base64 [77, 97, 110, 33] = Inr ''TWFuIQ==''"
    by (simp add: bytes_to_base64_def btoa_def b64_char_def b64_alphabet_def)
  from transport_round_trip [of "[77, 97, 110, 33]"] enc show ?thesis
    by auto
qed


lemma base64EncodeAudio_returns: "\<exists>text. base64EncodeAudio ys = Inr text"
  by (simp add: base64EncodeAudio_def bytes_to_base64_def btoa_bytes)

section \<open>Properties of \<open>decodeAudioData\<close>\<close>

lemma real_lt_index: "(real i < fc) = (i < nat \<lceil>fc\<rceil>)"
proof -
  have "(real i < fc) = (real_of_int (int i) < fc)" by simp
  also have "\<dots> = (int i < \<lceil>fc\<rceil>)" by (simp only: less_ceiling_iff)
  also have "\<dots> = (i < nat \<lceil>fc\<rceil>)" by (simp add: zless_nat_eq_int_zless)
  finally show ?thesis .
qed

lemma frame_loop_finite:
  "frame_loop d nc ch (Fin fc) i cd =
     Some (fold (\<lambda>k a. Float32Array_set a k (frame_value d nc ch k)) [i..<nat \<lceil>fc\<rceil>] cd)"
proof (induction "nat \<lceil>fc\<rceil> - i" arbitrary: i cd)
  case 0
  then have "\<not> real i < fc" by simp
  then show ?case
    by (subst frame_loop.simps) simp
next
  case (Suc n)
  then have lt: "i < nat \<lceil>fc\<rceil>" and "n = nat \<lceil>fc\<rceil> - Suc i" by simp_all
  then have IH: "frame_loop d nc ch (Fin fc) (Suc i) cd' =
     Some (fold (\<lambda>k a. Float32Array_set a k (frame_value d nc ch k)) [Suc i..<nat \<lceil>fc\<rceil>] cd')" for cd'
    using Suc.hyps(1) by blast
  from lt have "real i < fc" by (simp add: real_lt_index)
  then show ?case
    using lt unfolding frame_value_def
    by (subst frame_loop.simps) (simp add: IH [unfolded frame_value_def] upt_conv_Cons)
qed

lemma fold_set_prefix:
  "fold (\<lambda>k a. Float32Array_set a k (g k)) [0..<n] cd
     = map g [0..<min n (length cd)] @ drop (min n (length cd)) cd"
proof (induction n)
  case 0
  then show ?case by simp
next
  case (Suc n)
  show ?case
  proof (cases "n < length cd")
    case True
    then have "drop n cd = cd ! n # drop (Suc n) cd"
      by (simp add: Cons_nth_drop_Suc)
    then have "(map g [0..<n] @ drop n cd)[n := g n] = map g [0..<Suc n] @ drop (Suc n) cd"
      by (simp add: list_update_append)
    with True Suc show ?thesis
      by (simp add: Float32Array_set_def min_def)
  next
    case False
    with Suc show ?thesis
      by (simp add: Float32Array_set_def min_def)
  qed
qed


lemma frame_loop_fills:
  assumes "length cd = L" and "L \<le> nat \<lceil>fc\<rceil>"
  shows "frame_loop d nc ch (Fin fc) 0 cd = Some (map (frame_value d nc ch) [0..<L])"
proof -
  have "min (nat \<lceil>fc\<rceil>) (length cd) = L"
    using assms by (simp only: min_absorb2)
  then show ?thesis
    using assms(1) by (simp only: frame_loop_finite fold_set_prefix) simp
qed

lemma channel_loop_fills:
  assumes "length (channelData b) = nc" and "\<forall>cd \<in> set (channelData b). length cd = L"
    and "L \<le> nat \<lceil>fc\<rceil>" and "c \<le> nc"
  shows "channel_loop d nc (Fin fc) c b =
     Some (Inr (b\<lparr>channelData :=
        take c (channelData b) @ map (\<lambda>ch. map (frame_value d nc ch) [0..<L]) [c..<nc]\<rparr>))"
  using assms
proof (induction "nc - c" arbitrary: c b)
  case 0
  then have "c = nc" by simp
  with 0 show ?case by (subst channel_loop.simps) simp
next
  case (Suc n)
  then have lt: "c < nc" by simp
  let ?cd = "map (frame_value d nc c) [0..<L]"
  let ?b = "b\<lparr>channelData := (channelData b)[c := ?cd]\<rparr>"
  have get: "getChannelData b c = Inr (channelData b ! c)"
    using lt Suc.prems(1) by (simp add: getChannelData_def)
  have "length (channelData b ! c) = L"
    using lt Suc.prems(1,2) by simp
  then have loop: "frame_loop d nc c (Fin fc) 0 (channelData b ! c) = Some ?cd"
    using Suc.prems(3) by (rule frame_loop_fills)
  have len: "length (channelData ?b) = nc"
    using Suc.prems(1) by simp
  have all: "\<forall>cd \<in> set (channelData ?b). length cd = L"
    using Suc.prems(2) set_update_subset_insert [of "channelData b" c ?cd] by auto
  have "n = nc - Suc c"
    using Suc.hyps(2) by simp
  then have IH: "channel_loop d nc (Fin fc) (Suc c) ?b =
     Some (Inr (?b\<lparr>channelData :=
        take (Suc c) (channelData ?b) @ map (\<lambda>ch. map (frame_value d nc ch) [0..<L]) [Suc c..<nc]\<rparr>))"
    using Suc.hyps(1) [of "Suc c" ?b] len all Suc.prems(3) lt by simp
  have tk: "take (Suc c) ((channelData b)[c := ?cd]) = take c (channelData b) @ [?cd]"
    using lt Suc.prems(1) by (simp add: take_Suc_conv_app_nth)
  have "channel_loop d nc (Fin fc) c b = channel_loop d nc (Fin fc) (Suc c) ?b"
    using lt get loop by (subst channel_loop.simps) simp
  then show ?case
    using lt by (simp add: IH tk upt_conv_Cons)
qed

lemma length_int16_view: "length (int16_view bytes) = length bytes div 2"
  by (induction bytes rule: int16_view.induct) simp_all

lemma js_trunc_quotient: "js_trunc (real a / real b) = int (a div b)"
proof -
  have "\<lfloor>real a / real b\<rfloor> = int (a div b)"
    by (simp add: floor_divide_of_nat_eq)
  moreover have "\<not> real a / real b < 0"
    by (simp add: not_less)
  ultimately show ?thesis
    by (simp only: js_trunc_def if_False)
qed

lemma quotient_le_ceiling: "a div b \<le> nat \<lceil>real a / real b\<rceil>"
proof -
  have "int (a div b) = \<lfloor>real a / real b\<rfloor>"
    by (simp add: floor_divide_of_nat_eq)
  also have "\<dots> \<le> \<lceil>real a / real b\<rceil>"
    by (rule floor_le_ceiling)
  finally show ?thesis by simp
qed


lemma frame_value_in_range:
  assumes "i * nc + ch < length d"
  shows "frame_value d nc ch i = Fin (real_of_int (sint (d ! (i * nc + ch))) / 32768)"
  using assms by (simp add: frame_value_def Int16Array_get_def)

lemma frame_index_in_range:
  assumes "i < n div nc" and "ch < nc"
  shows "i * nc + ch < (n :: nat)"
proof -
  have "i * nc + ch < Suc i * nc"
    using assms(2) by simp
  also have "\<dots> \<le> (n div nc) * nc"
    using assms(1) by (intro mult_le_mono1) simp
  also have "\<dots> \<le> n"
    by simp
  finally show ?thesis .
qed

lemma decoded_channels_frame_value:
  "map (\<lambda>ch. map (frame_value (int16_view bytes) nc ch) [0..<length bytes div (2 * nc)]) [0..<nc]
     = decoded_channels bytes nc"
  unfolding decoded_channels_def
proof (intro map_cong refl)
  fix ch i
  assume "ch \<in> set [0..<nc]" and "i \<in> set [0..<length bytes div (2 * nc)]"
  then have "ch < nc" and "i < length (int16_view bytes) div nc"
    by (simp_all add: length_int16_view div_mult2_eq)
  then have "i * nc + ch < length (int16_view bytes)"
    by (rule frame_index_in_range [rotated])
  then show "frame_value (int16_view bytes) nc ch i
      = Fin (real_of_int (sint (int16_view bytes ! (i * nc + ch))) / 32768)"
    by (rule frame_value_in_range)
qed

lemma decodeAudioData_general:
  "decodeAudioData bytes 24000 nc =
     (if odd (length bytes) then Some (Inl RangeError)
      else if nc = 0 \<or> 32 < nc \<or> buffer_frames bytes nc = 0
        then Some (Inl NotSupportedError)
      else Some (Inr \<lparr>sampleRate = 24000, frames = buffer_frames bytes nc,
                       channelData =
                         map (\<lambda>ch. map (frame_value (int16_view bytes) nc ch)
                                      [0..<buffer_frames bytes nc]) [0..<nc]\<rparr>))"
proof (cases "odd (length bytes)")
  case True
  then show ?thesis
    by (simp add: decodeAudioData_def new_Int16Array_def)
next
  case even: False
  let ?d = "int16_view bytes"
  let ?fc = "js_divide (Fin (real (length ?d))) (Fin (real nc))"
  have dec: "decodeAudioData bytes 24000 nc =
      (case createBuffer nc (ToUint32 ?fc) 24000 of
         Inl e \<Rightarrow> Some (Inl e)
       | Inr buffer \<Rightarrow> channel_loop ?d nc ?fc 0 buffer)"
    using even by (simp only: decodeAudioData_def new_Int16Array_def Let_def if_False sum.case)
  show ?thesis
  proof (cases "nc = 0")
    case True
    then show ?thesis
      using even unfolding dec by (simp add: createBuffer_def)
  next
    case pos: False
    let ?L = "buffer_frames bytes nc"
    have fc: "?fc = Fin (real (length ?d) / real nc)"
      using pos by simp
    have L: "ToUint32 ?fc = ?L"
      unfolding fc buffer_frames_def
      by (simp only: ToUint32.simps js_trunc_quotient length_int16_view)
    show ?thesis
    proof (cases "32 < nc \<or> ?L = 0")
      case True
      then show ?thesis
        using even pos unfolding dec L by (auto simp add: createBuffer_def)
    next
      case False
      let ?b = "\<lparr>sampleRate = 24000, frames = ?L,
                  channelData = replicate nc (replicate ?L (Fin 0))\<rparr>"
      have cb: "createBuffer nc ?L 24000 = Inr ?b"
        using False pos by (simp add: createBuffer_def)
      have "int (length ?d div nc) mod 2 ^ 32 \<le> int (length ?d div nc)"
        by (rule zmod_le_nonneg_dividend) simp
      then have "?L \<le> length ?d div nc"
        by (simp add: buffer_frames_def length_int16_view)
      then have "?L \<le> nat \<lceil>real (length ?d) / real nc\<rceil>"
        using quotient_le_ceiling [of "length ?d" nc] by (rule le_trans)
      then have "channel_loop ?d nc (Fin (real (length ?d) / real nc)) 0 ?b =
          Some (Inr (?b\<lparr>channelData := take 0 (channelData ?b)
             @ map (\<lambda>ch. map (frame_value ?d nc ch) [0..<?L]) [0..<nc]\<rparr>))"
        by (intro channel_loop_fills) simp_all
      then have "channel_loop ?d nc (Fin (real (length ?d) / real nc)) 0 ?b =
          Some (Inr \<lparr>sampleRate = 24000, frames = ?L,
             channelData = map (\<lambda>ch. map (frame_value ?d nc ch) [0..<?L]) [0..<nc]\<rparr>)"
        by simp
      then have "channel_loop ?d nc ?fc 0 ?b =
          Some (Inr \<lparr>sampleRate = 24000, frames = ?L,
             channelData = map (\<lambda>ch. map (frame_value ?d nc ch) [0..<?L]) [0..<nc]\<rparr>)"
        by (simp only: fc)
      moreover have "decodeAudioData bytes 24000 nc = channel_loop ?d nc ?fc 0 ?b"
        by (simp only: dec L cb sum.case)
      ultimately have "decodeAudioData bytes 24000 nc =
          Some (Inr \<lparr>sampleRate = 24000, frames = ?L,
             channelData = map (\<lambda>ch. map (frame_value ?d nc ch) [0..<?L]) [0..<nc]\<rparr>)"
        by (simp only:)
      then show ?thesis
        using even pos False by simp
    qed
  qed
qed

lemma buffer_frames_small:
  assumes "length bytes < 2 ^ 33"
  shows "buffer_frames bytes nc = length bytes div (2 * nc)"
proof -
  have "length bytes div 2 < 2 ^ 32"
    using assms by simp
  moreover have "length bytes div 2 div nc \<le> length bytes div 2"
    by (rule div_le_dividend)
  ultimately have "length bytes div 2 div nc < 2 ^ 32"
    by (rule le_less_trans [rotated])
  then have "int (length bytes div 2 div nc) mod 2 ^ 32 = int (length bytes div 2 div nc)"
    by (intro mod_pos_pos_trivial) simp_all
  then show ?thesis
    by (simp only: buffer_frames_def nat_int div_mult2_eq)
qed

lemma decodeAudioData_small:
  assumes "length bytes < 2 ^ 33"
  shows "decodeAudioData bytes 24000 nc =
     (if odd (length bytes) then Some (Inl RangeError)
      else if nc = 0 \<or> 32 < nc \<or> length bytes div (2 * nc) = 0
        then Some (Inl NotSupportedError)
      else Some (Inr \<lparr>sampleRate = 24000, frames = length bytes div (2 * nc),
                       channelData = decoded_channels bytes nc\<rparr>))"
  unfolding decodeAudioData_general buffer_frames_small [OF assms] decoded_channels_frame_value
  by (rule refl)

lemma int16_round: "(push_bit 8 (ucast (ucast (drop_bit 8 w) :: 8 word)) OR ucast (ucast w :: 8 word) :: 16 word) = w"
  by (rule bit_word_eqI) (auto simp add: bit_simps)

lemma int16_view_bytes: "int16_view (int16_bytes ws) = ws"
  by (induction ws) (simp_all add: int16_bytes_def int16_round)

lemma trunc_error:
  "(v < 0 \<longrightarrow> v \<le> real_of_int (js_trunc v) \<and> real_of_int (js_trunc v) < v + 1)
   \<and> (0 \<le> v \<longrightarrow> real_of_int (js_trunc v) \<le> v \<and> v < real_of_int (js_trunc v) + 1)"
  unfolding js_trunc_def by (auto simp add: not_less) linarith+

lemma round_trip_error:
  assumes "- 1 \<le> x" and "x \<le> 1"
  shows "\<bar>round_trip_sample x - x\<bar> < 2 / 32768
     \<and> (x < 0 \<longrightarrow> \<bar>round_trip_sample x - x\<bar> < 1 / 32768)"
proof (cases "x < 0")
  case True
  let ?q = "real_of_int (js_trunc (x * 32768))"
  have "x * 32768 < 0" using True by simp
  then have "x * 32768 \<le> ?q" and "?q < x * 32768 + 1"
    using trunc_error [of "x * 32768"] by blast+
  moreover have "round_trip_sample x = ?q / 32768"
    using True assms
    by (simp add: round_trip_sample_def floatToPCM16_spec_sample_def scale_spec_def clamp_spec_def)
  ultimately show ?thesis
    by (simp add: abs_less_iff field_simps)
next
  case False
  let ?q = "real_of_int (js_trunc (x * 32767))"
  have "0 \<le> x * 32767" using False by simp
  then have "?q \<le> x * 32767" and "x * 32767 < ?q + 1"
    using trunc_error [of "x * 32767"] by blast+
  moreover have "round_trip_sample x = ?q / 32768"
    using False assms
    by (simp add: round_trip_sample_def floatToPCM16_spec_sample_def scale_spec_def clamp_spec_def)
  ultimately show ?thesis
    using False assms by (simp add: abs_less_iff field_simps)
qed

lemma signed_pcm_sample_Fin:
  "(signed (pcm_sample (Fin x)) :: real) = real_of_int (floatToPCM16_spec_sample x)"
proof -
  have "(signed (pcm_sample (Fin x)) :: real) = real_of_int (sint (pcm_sample (Fin x)))"
    by simp
  then show ?thesis
    by (simp only: sint_pcm_sample_Fin)
qed

lemma decoded_channels_floatToPCM16:
  "decoded_channels (floatToPCM16 (map Fin xs)) 1 = [map (\<lambda>x. Fin (round_trip_sample x)) xs]"
proof -
  let ?ws = "map pcm_sample (map Fin xs)"
  have "map (\<lambda>i. Fin (real_of_int (sint (?ws ! i)) / 32768)) [0..<length xs]
      = map (\<lambda>x. Fin (round_trip_sample x)) xs"
    by (rule nth_equalityI) (simp_all add: signed_pcm_sample_Fin round_trip_sample_def)
  moreover have "int16_view (floatToPCM16 (map Fin xs)) = ?ws"
    by (simp only: floatToPCM16_def int16_view_bytes)
  moreover have "length (floatToPCM16 (map Fin xs)) div 2 = length xs"
    by (simp add: length_floatToPCM16)
  ultimately show ?thesis
    by (simp add: decoded_channels_def comp_def)
qed

section \<open>The claims about the PCM codec\<close>

text \<open>
  Claim C3. The PCM stage of \<open>base64EncodeAudio\<close> is a total function of the samples. On
  finite samples it is the function of the specification: clamp to the interval from \<open>-1\<close>
  to \<open>1\<close>, scale by 32768 below zero and by 32767 otherwise, truncate, write the low byte
  first. The truncated value fits 16 signed bits, so the conversion never wraps. Every
  sample yields two bytes; the infinities are clamped like any other value out of range and
  not-a-number becomes 0; the encoding that follows never raises.
\<close>

theorem floatToPCM16_total_clamped:
  "floatToPCM16 (map Fin xs) = floatToPCM16_spec xs
   \<and> map (\<lambda>y. sint (pcm_sample y)) (map Fin xs) = map floatToPCM16_spec_sample xs
   \<and> list_all (\<lambda>x. - 32768 \<le> floatToPCM16_spec_sample x
                    \<and> floatToPCM16_spec_sample x \<le> 32767) xs
   \<and> length (floatToPCM16 ys) = 2 * length ys
   \<and> pcm_sample PosInf = 32767 \<and> pcm_sample NegInf = - 32768 \<and> pcm_sample NaN = 0
   \<and> (\<exists>text. base64EncodeAudio ys = Inr text)"
proof -
  have "map (\<lambda>y. sint (pcm_sample y)) (map Fin xs) = map floatToPCM16_spec_sample xs"
    by (simp add: sint_pcm_sample_Fin comp_def)
  moreover have "list_all (\<lambda>x. - 32768 \<le> floatToPCM16_spec_sample x
      \<and> floatToPCM16_spec_sample x \<le> 32767) xs"
    using spec_sample_range by (simp add: list_all_iff)
  ultimately show ?thesis
    using floatToPCM16_refines_spec [of xs] length_floatToPCM16 [of ys]
      pcm_sample_not_finite base64EncodeAudio_returns [of ys]
    by blast
qed

theorem floatToPCM16_total_clamped_witness:
  "floatToPCM16 [Fin (1 / 2), Fin (- 1 / 2), Fin 2, Fin (- 3)]
     = [255, 63, 0, 192, 255, 127, 0, 128]
   \<and> length (floatToPCM16 [NaN, PosInf]) = 4"
proof -
  have "floatToPCM16_spec [1 / 2, - 1 / 2, 2, - 3] = [255, 63, 0, 192, 255, 127, 0, 128]"
    by (simp add: floatToPCM16_spec_def floatToPCM16_spec_sample_def scale_spec_def
        clamp_spec_def js_trunc_def le16_spec_def)
  with floatToPCM16_total_clamped [of "[1 / 2, - 1 / 2, 2, - 3]" "[NaN, PosInf]"]
  show ?thesis
    by simp
qed

text \<open>
  Claim C4, as amended. For every non-empty sequence of fewer than \<open>2 ^ 32\<close> samples
  between \<open>-1\<close> and \<open>1\<close>, decoding its 16-bit PCM encoding as one channel returns a buffer of
  as many frames, whose sample \<open>i\<close> differs from the original by less than \<open>2 / 32768\<close>, and
  by less than \<open>1 / 32768\<close> where the original is negative. The encoder scales a sample that
  is not negative by 32767 and the decoder divides by 32768, so the bound \<open>1 / 32768\<close> of the
  claim does not hold there; the empty sequence encodes to no bytes, which \<open>createBuffer\<close>
  refuses.
\<close>

theorem pcm_round_trip_error:
  assumes "xs \<noteq> []" and "length xs < 2 ^ 32" and "\<forall>x \<in> set xs. - 1 \<le> x \<and> x \<le> 1"
  shows "\<exists>ys. decodeAudioData (floatToPCM16 (map Fin xs)) 24000 1
            = Some (Inr \<lparr>sampleRate = 24000, frames = length xs, channelData = [map Fin ys]\<rparr>)
          \<and> length ys = length xs
          \<and> (\<forall>i < length xs. \<bar>ys ! i - xs ! i\<bar> < 2 / 32768
                \<and> (xs ! i < 0 \<longrightarrow> \<bar>ys ! i - xs ! i\<bar> < 1 / 32768))"
proof -
  let ?bytes = "floatToPCM16 (map Fin xs)"
  let ?ys = "map round_trip_sample xs"
  have len: "length ?bytes = 2 * length xs"
    by (simp add: length_floatToPCM16)
  then have "length ?bytes < 2 ^ 33"
    using assms(2) by simp
  then have "decodeAudioData ?bytes 24000 1 =
     (if odd (length ?bytes) then Some (Inl RangeError)
      else if (1 :: nat) = 0 \<or> 32 < (1 :: nat) \<or> length ?bytes div (2 * 1) = 0
        then Some (Inl NotSupportedError)
      else Some (Inr \<lparr>sampleRate = 24000, frames = length ?bytes div (2 * 1),
                       channelData = decoded_channels ?bytes 1\<rparr>))"
    by (rule decodeAudioData_small)
  then have "decodeAudioData ?bytes 24000 1
      = Some (Inr \<lparr>sampleRate = 24000, frames = length xs, channelData = [map Fin ?ys]\<rparr>)"
    unfolding decoded_channels_floatToPCM16 len using assms(1) by (simp add: comp_def)
  moreover have "\<forall>i < length xs. \<bar>?ys ! i - xs ! i\<bar> < 2 / 32768
      \<and> (xs ! i < 0 \<longrightarrow> \<bar>?ys ! i - xs ! i\<bar> < 1 / 32768)"
    using assms(3) round_trip_error by simp
  ultimately show ?thesis
    by (intro exI [of _ ?ys]) simp
qed

theorem pcm_round_trip_error_witness:
  "\<exists>ys. decodeAudioData (floatToPCM16 [Fin (1 / 2), Fin (- 1)]) 24000 1
            = Some (Inr \<lparr>sampleRate = 24000, frames = 2, channelData = [map Fin ys]\<rparr>)
          \<and> \<bar>ys ! 0 - 1 / 2\<bar> < 2 / 32768 \<and> \<bar>ys ! 1 - (- 1)\<bar> < 1 / 32768"
proof -
  let ?xs = "[1 / 2, - 1] :: real list"
  have "\<exists>ys. decodeAudioData (floatToPCM16 (map Fin ?xs)) 24000 1
            = Some (Inr \<lparr>sampleRate = 24000, frames = length ?xs, channelData = [map Fin ys]\<rparr>)
          \<and> length ys = length ?xs
          \<and> (\<forall>i < length ?xs. \<bar>ys ! i - ?xs ! i\<bar> < 2 / 32768
                \<and> (?xs ! i < 0 \<longrightarrow> \<bar>ys ! i - ?xs ! i\<bar> < 1 / 32768))"
    by (rule pcm_round_trip_error) simp_all
  then obtain ys where
    dec: "decodeAudioData (floatToPCM16 [Fin (1 / 2), Fin (- 1)]) 24000 1
            = Some (Inr \<lparr>sampleRate = 24000, frames = 2, channelData = [map Fin ys]\<rparr>)"
    and err: "\<forall>i < 2. \<bar>ys ! i - ?xs ! i\<bar> < 2 / 32768
                \<and> (?xs ! i < 0 \<longrightarrow> \<bar>ys ! i - ?xs ! i\<bar> < 1 / 32768)"
    by (elim exE conjE) simp
  from err have "\<bar>ys ! 0 - 1 / 2\<bar> < 2 / 32768"
    by (elim allE [of _ 0]) simp
  moreover from err have "\<bar>ys ! 1 - (- 1)\<bar> < 1 / 32768"
    by (elim allE [of _ 1]) simp
  ultimately show ?thesis
    using dec by (intro exI [of _ ys]) simp
qed

text \<open>
  The claim as stated fails at the sample \<open>131071 / 131072\<close>, which a 32-bit float holds: it
  is encoded as 32766 and decoded as \<open>16383 / 16384\<close>, at a distance of \<open>7 / 131072\<close>.
\<close>

theorem pcm_round_trip_counterexample:
  "decodeAudioData (floatToPCM16 [Fin (131071 / 131072)]) 24000 1
     = Some (Inr \<lparr>sampleRate = 24000, frames = 1, channelData = [[Fin (16383 / 16384)]]\<rparr>)
   \<and> - 1 \<le> (131071 / 131072 :: real) \<and> (131071 / 131072 :: real) \<le> 1
   \<and> \<not> \<bar>16383 / 16384 - 131071 / 131072 :: real\<bar> \<le> 1 / 32768"
proof -
  have "floatToPCM16 [Fin (131071 / 131072)] = [254, 127]"
    by (simp add: floatToPCM16_def int16_bytes_def pcm_sample_def js_trunc_def)
  moreover have "length [254, 127 :: 8 word] < 2 ^ 33"
    by simp
  from decodeAudioData_small [OF this, of 1]
  have "decodeAudioData [254, 127] 24000 1
      = Some (Inr \<lparr>sampleRate = 24000, frames = 1, channelData = [[Fin (16383 / 16384)]]\<rparr>)"
    by (simp add: decoded_channels_def)
  ultimately show ?thesis
    by simp
qed

section \<open>The claim about the decoding\<close>

text \<open>
  Claim C6, as amended. For a byte sequence shorter than \<open>2 ^ 33\<close> and any channel count,
  \<open>decodeAudioData\<close> at 24000 Hz returns or raises, and it raises exactly when the byte
  length is odd, or the channel count is zero or above 32, or there is no whole frame, that
  is \<open>length bytes div (2 * nc) = 0\<close>. When it returns, the buffer has \<open>nc\<close> channels of
  \<open>length bytes div (2 * nc)\<close> samples each, sample \<open>i\<close> of channel \<open>ch\<close> being the 16-bit
  value at index \<open>i * nc + ch\<close> over 32768; 16-bit values beyond the last whole frame are
  left out. For one channel, the only count the program passes, it raises exactly when the
  byte length is not a multiple of \<open>2 * nc\<close> or the frame count is zero, as the claim says.
\<close>

theorem decodeAudioData_outcome:
  assumes "length bytes < 2 ^ 33"
  shows "((\<exists>e. decodeAudioData bytes 24000 nc = Some (Inl e))
            \<longleftrightarrow> odd (length bytes) \<or> nc = 0 \<or> 32 < nc \<or> length bytes div (2 * nc) = 0)
     \<and> (\<forall>buffer. decodeAudioData bytes 24000 nc = Some (Inr buffer) \<longrightarrow>
            sampleRate buffer = 24000
            \<and> frames buffer = length bytes div (2 * nc)
            \<and> length (channelData buffer) = nc
            \<and> list_all (\<lambda>c. length c = length bytes div (2 * nc)) (channelData buffer)
            \<and> channelData buffer = decoded_channels bytes nc)
     \<and> decodeAudioData bytes 24000 nc \<noteq> None
     \<and> (nc = 1 \<longrightarrow>
           ((\<exists>e. decodeAudioData bytes 24000 nc = Some (Inl e))
              \<longleftrightarrow> \<not> 2 * nc dvd length bytes \<or> length bytes div (2 * nc) = 0))"
proof -
  have shape: "length (decoded_channels bytes nc) = nc
      \<and> list_all (\<lambda>c. length c = length bytes div (2 * nc)) (decoded_channels bytes nc)"
    by (simp add: decoded_channels_def list_all_iff)
  show ?thesis
    using shape unfolding decodeAudioData_small [OF assms, of nc]
    by (auto split: if_splits)
qed

theorem decodeAudioData_outcome_witness:
  "decodeAudioData [0, 64, 0, 192] 24000 1
     = Some (Inr \<lparr>sampleRate = 24000, frames = 2, channelData = [[Fin (1 / 2), Fin (- 1 / 2)]]\<rparr>)
   \<and> decodeAudioData [0, 64, 0] 24000 1 = Some (Inl RangeError)
   \<and> (\<exists>e. decodeAudioData [] 24000 1 = Some (Inl e))"
proof -
  let ?bytes = "[0, 64, 0, 192] :: 8 word list"
  have small: "length ?bytes < 2 ^ 33" "length [0, 64, 0 :: 8 word] < 2 ^ 33"
    "length ([] :: 8 word list) < 2 ^ 33"
    by simp_all
  note ok = decodeAudioData_outcome [OF small(1), of 1]
  note odd = decodeAudioData_outcome [OF small(2), of 1]
  note none = decodeAudioData_outcome [OF small(3), of 1]
  have "decodeAudioData ?bytes 24000 1 \<noteq> None"
    using ok by blast
  then obtain r where r: "decodeAudioData ?bytes 24000 1 = Some r"
    by blast
  have "\<forall>e. decodeAudioData ?bytes 24000 1 \<noteq> Some (Inl e)"
    using ok by simp
  with r obtain buffer where b: "decodeAudioData ?bytes 24000 1 = Some (Inr buffer)"
    by (cases r) simp_all
  from ok have "\<forall>buffer. decodeAudioData ?bytes 24000 1 = Some (Inr buffer) \<longrightarrow>
      sampleRate buffer = 24000 \<and> frames buffer = length ?bytes div (2 * 1)
      \<and> channelData buffer = decoded_channels ?bytes 1"
    by blast
  with b have "sampleRate buffer = 24000" and "frames buffer = 2"
    and "channelData buffer = decoded_channels ?bytes 1"
    by simp_all
  moreover have "decoded_channels ?bytes 1 = [[Fin (1 / 2), Fin (- 1 / 2)]]"
    by (simp add: decoded_channels_def upt_conv_Cons)
  ultimately have "buffer = \<lparr>sampleRate = 24000, frames = 2, channelData = [[Fin (1 / 2), Fin (- 1 / 2)]]\<rparr>"
    by (cases buffer) simp
  with b have first: "decodeAudioData ?bytes 24000 1
     = Some (Inr \<lparr>sampleRate = 24000, frames = 2, channelData = [[Fin (1 / 2), Fin (- 1 / 2)]]\<rparr>)"
    by simp
  from odd obtain e where e: "decodeAudioData [0, 64, 0] 24000 1 = Some (Inl e)"
    by auto
  have "decodeAudioData [0, 64, 0] 24000 1 = Some (Inl RangeError)"
    by (simp add: decodeAudioData_def new_Int16Array_def)
  moreover from none have "\<exists>e. decodeAudioData [] 24000 1 = Some (Inl e)"
    by simp
  ultimately show ?thesis
    using first by simp
qed

text \<open>
  The claim as stated fails for two channels and six bytes: six is not a multiple of four,
  yet the call returns a buffer of one frame and drops the third 16-bit value.
\<close>

theorem decodeAudioData_length_counterexample:
  "decodeAudioData [1, 0, 2, 0, 3, 0] 24000 2
     = Some (Inr \<lparr>sampleRate = 24000, frames = 1,
                   channelData = [[Fin (1 / 32768)], [Fin (2 / 32768)]]\<rparr>)
   \<and> \<not> 2 * 2 dvd length [1, 0, 2, 0, 3, 0 :: 8 word]"
proof -
  have "length [1, 0, 2, 0, 3, 0 :: 8 word] < 2 ^ 33"
    by simp
  from decodeAudioData_small [OF this, of 2]
  have "decodeAudioData [1, 0, 2, 0, 3, 0] 24000 2
      = Some (Inr \<lparr>sampleRate = 24000, frames = 1,
                    channelData = [[Fin (1 / 32768)], [Fin (2 / 32768)]]\<rparr>)"
    by (simp add: decoded_channels_def upt_conv_Cons)
  moreover have "length [1, 0, 2, 0, 3, 0 :: 8 word] = 6"
    by simp
  moreover have "\<not> 2 * 2 dvd (6 :: nat)"
    by simp
  ultimately show ?thesis
    by (simp only: simp_thms)
qed

section \<open>Properties of the playback scheduler\<close>

lemma base64Audio_of_audio_message: "base64Audio_of (audio_message b) = Some b"
  by (simp add: base64Audio_of_def audio_message_def)

lemma decode_one_frame_bytes: "decode ''AAA='' = Inr [0, 0]"
  by (simp add: decode_def atob_def strip_padding_def ascii_whitespace_def b64_index_def b64_alphabet_def)

lemma decode_three_bytes: "decode ''AAAA'' = Inr [0, 0, 0]"
  by (simp add: decode_def atob_def strip_padding_def ascii_whitespace_def b64_index_def b64_alphabet_def)

lemma decode_payload_odd: "decode_payload ''AAAA'' = Some (Inl RangeError)"
  by (simp add: decode_payload_def decode_three_bytes decodeAudioData_general)

lemma decode_payload_one_frame: "decode_payload ''AAA='' = Some (Inr \<lparr>sampleRate = 24000, frames = 1, channelData = [[Fin 0]]\<rparr>)"
  by (simp add: decode_payload_def decode_one_frame_bytes decodeAudioData_general buffer_frames_def frame_value_def Int16Array_get_def)

lemma run_messages_append:
  "run_messages (xs @ ys) this =
     (case run_messages xs this of None \<Rightarrow> None | Some this' \<Rightarrow> run_messages ys this')"
  by (induction xs arbitrary: this) (auto split: option.splits)

lemma onMessage_audio_message:
  "b \<noteq> [] \<Longrightarrow> onMessage (audio_message b) currentTime this =
     (case decode_payload b of
        None \<Rightarrow> None
      | Some (Inl e) \<Rightarrow> Some this
      | Some (Inr audioBuffer) \<Rightarrow> Some (schedule audioBuffer currentTime this))"
  by (simp add: onMessage_def base64Audio_of_audio_message)

lemma round_unbounded_of_double: "round_double x = Fin y \<Longrightarrow> round_unbounded x = y"
  by (simp add: round_double_cases split: if_splits)

lemma round_frame_time: "round_double (1 / 24000) = Fin (6148914691236517 / 147573952589676412928)"
  by (rule round_double_nearest [where e = "- 15" and k = "- 67" and m = 6148914691236517])
    simp_all

lemma round_two_power_32: "round_double (2 ^ 32) = Fin (2 ^ 32)"
  by (rule round_double_nearest [where e = 32 and k = "- 20" and m = "2 ^ 52"]) simp_all

lemma is_double_zero: "is_double 0"
  by (simp add: is_double_iff round_unbounded_def)

lemma duration_decoded:
  assumes "sampleRate b = 24000" and "0 < frames b" and "frames b < 2 ^ 32"
  shows "\<exists>d. duration b = Fin d \<and> 0 < d"
proof -
  let ?x = "real (frames b) / 24000"
  have lo: "1 / 24000 \<le> ?x"
    using assms(2) by simp
  have "frames b \<le> 2 ^ 32"
    using assms(3) by (rule less_imp_le)
  then have "real (frames b) \<le> real (2 ^ 32)"
    by (simp only: of_nat_le_iff)
  then have hi: "?x \<le> 2 ^ 32"
    by simp
  have "round_unbounded (1 / 24000) \<le> round_unbounded ?x"
    using lo by (intro round_unbounded_mono) simp_all
  then have pos: "0 < round_unbounded ?x"
    by (simp add: round_unbounded_of_double [OF round_frame_time])
  have "round_unbounded ?x \<le> round_unbounded (2 ^ 32)"
    using hi by (intro round_unbounded_mono) simp_all
  also have "round_unbounded (2 ^ 32) = 2 ^ 32"
    by (rule round_unbounded_of_double [OF round_two_power_32])
  finally have "round_unbounded ?x \<le> 2 ^ 32" .
  then have "round_unbounded ?x < 2 ^ 1024"
    by (rule le_less_trans) simp
  with pos have "round_double ?x = Fin (round_unbounded ?x)"
    by (simp add: round_double_cases)
  moreover have "duration b = round_double ?x"
    using assms(1) by (simp add: duration_def)
  ultimately show ?thesis
    using pos by simp
qed

lemma buffer_frames_bound: "buffer_frames bytes nc < 2 ^ 32"
proof -
  have "int (length bytes div 2 div nc) mod 2 ^ 32 < 2 ^ 32"
    by (rule pos_mod_bound) simp
  then show ?thesis
    by (simp add: buffer_frames_def nat_less_iff)
qed

lemma decode_payload_returns:
  "\<exists>r. decode_payload base64Audio = Some r
     \<and> (\<forall>buffer. r = Inr buffer \<longrightarrow> (\<exists>d. duration buffer = Fin d \<and> 0 < d))"
proof (cases "decode base64Audio")
  case (Inl e)
  then show ?thesis by (simp add: decode_payload_def)
next
  case (Inr bytes)
  let ?b = "\<lparr>sampleRate = 24000, frames = buffer_frames bytes 1,
              channelData = map (\<lambda>ch. map (frame_value (int16_view bytes) 1 ch)
                [0..<buffer_frames bytes 1]) [0..<1]\<rparr>"
  have "buffer_frames bytes 1 \<noteq> 0 \<Longrightarrow> \<exists>d. duration ?b = Fin d \<and> 0 < d"
    using buffer_frames_bound [of bytes 1] by (intro duration_decoded) simp_all
  then show ?thesis
    using Inr by (simp add: decode_payload_def decodeAudioData_general)
qed

lemma no_overlap_snoc:
  "no_overlap (units @ [unit]) =
     (no_overlap units \<and> list_all (\<lambda>earlier. js_le (scheduled_end earlier) (Fin (fst unit))) units)"
  by (induction units) (auto simp add: list_all_iff)

lemma no_overlap_nth:
  assumes "no_overlap units" and "i < j" and "j < length units"
  shows "js_le (scheduled_end (units ! i)) (Fin (fst (units ! j)))"
  using assms
proof (induction units arbitrary: i j)
  case Nil
  then show ?case by simp
next
  case (Cons unit units)
  from Cons.prems(2) obtain j' where j: "j = Suc j'" by (cases j) auto
  show ?case
  proof (cases i)
    case 0
    have "units ! j' \<in> set units"
      using Cons.prems(3) j by simp
    then show ?thesis
      using Cons.prems(1) 0 j by (auto simp add: list_all_iff)
  next
    case (Suc i')
    then show ?thesis
      using Cons.prems j Cons.IH [of i' j'] by simp
  qed
qed

lemma is_double_max: "is_double a \<Longrightarrow> is_double b \<Longrightarrow> is_double (max a b)"
  by (simp add: max_def)

lemma schedule_invariant:
  assumes "no_overlap (scheduled this)" and "cursor_covers this" and "cursor_is_double this"
    and "is_double currentTime" and "duration audioBuffer = Fin d" and "0 \<le> d"
  shows "no_overlap (scheduled (schedule audioBuffer currentTime this))
     \<and> cursor_covers (schedule audioBuffer currentTime this)
     \<and> cursor_is_double (schedule audioBuffer currentTime this)
     \<and> js_le (nextStartTime this) (nextStartTime (schedule audioBuffer currentTime this))"
proof (cases "nextStartTime this")
  case NaN
  with assms(3) show ?thesis by (simp add: cursor_is_double_def)
next
  case NegInf
  with assms(3) show ?thesis by (simp add: cursor_is_double_def)
next
  case PosInf
  then have "schedule audioBuffer currentTime this = this"
    by (simp add: schedule_def Let_def)
  with assms PosInf show ?thesis by simp
next
  case (Fin c)
  let ?t = "max currentTime c"
  have c: "is_double c"
    using assms(3) Fin by (simp add: cursor_is_double_def)
  have t: "is_double ?t"
    using assms(4) c by (rule is_double_max)
  have before: "list_all (\<lambda>unit. js_le (scheduled_end unit) (Fin ?t)) (scheduled this)"
  proof -
    have "js_le (Fin c) (Fin ?t)" by simp
    then show ?thesis
      using assms(2) Fin js_le_trans by (auto simp add: cursor_covers_def list_all_iff)
  qed
  show ?thesis
  proof (cases "?t < 0")
    case True
    then have "schedule audioBuffer currentTime this = this\<lparr>nextStartTime := Fin ?t\<rparr>"
      using Fin by (simp add: schedule_def Let_def)
    then show ?thesis
      using assms(1) before t Fin by (simp add: cursor_covers_def cursor_is_double_def)
  next
    case False
    let ?next = "round_double (?t + d)"
    have sch: "schedule audioBuffer currentTime this =
        this\<lparr>nextStartTime := ?next, scheduled := scheduled this @ [(?t, audioBuffer)]\<rparr>"
      using Fin False assms(5) by (auto simp add: schedule_def Let_def)
    have nonneg: "0 \<le> ?t"
      using False by linarith
    have sum: "js_le (Fin ?t) ?next
        \<and> (?next = PosInf \<or> (\<exists>c'. ?next = Fin c' \<and> is_double c' \<and> 0 \<le> c'))"
      using t nonneg assms(6) by (rule round_double_sum)
    then have cur: "js_le (Fin c) ?next"
      using js_le_trans [of "Fin c" "Fin ?t" ?next] by simp
    have after: "list_all (\<lambda>unit. js_le (scheduled_end unit) ?next) (scheduled this)"
      using before sum js_le_trans by (auto simp add: list_all_iff)
    have own: "js_le (scheduled_end (?t, audioBuffer)) ?next"
      using assms(5) by (simp add: scheduled_end_def js_le_refl round_double_not_NaN)
    have "cursor_is_double (this\<lparr>nextStartTime := ?next,
        scheduled := scheduled this @ [(?t, audioBuffer)]\<rparr>)"
      using sum by (auto simp add: cursor_is_double_def)
    then show ?thesis
      using assms(1) before after own cur Fin
      by (simp add: sch no_overlap_snoc cursor_covers_def)
  qed
qed


lemma onMessage_invariant:
  assumes "no_overlap (scheduled this)" and "cursor_covers this" and "cursor_is_double this"
    and "is_double currentTime"
  shows "\<exists>this'. onMessage message currentTime this = Some this'
     \<and> no_overlap (scheduled this') \<and> cursor_covers this' \<and> cursor_is_double this'
     \<and> js_le (nextStartTime this) (nextStartTime this')"
proof -
  have "nextStartTime this \<noteq> NaN"
    using assms(3) by (auto simp add: cursor_is_double_def)
  then have same: "js_le (nextStartTime this) (nextStartTime this)"
    by (rule js_le_refl)
  show ?thesis
  proof (cases "base64Audio_of message")
    case None
    then show ?thesis
      using assms same by (simp add: onMessage_def)
  next
    case (Some base64Audio)
    show ?thesis
    proof (cases "base64Audio = []")
      case True
      with Some show ?thesis
        using assms same by (simp add: onMessage_def)
    next
      case False
      obtain r where r: "decode_payload base64Audio = Some r"
        and pos: "\<forall>buffer. r = Inr buffer \<longrightarrow> (\<exists>d. duration buffer = Fin d \<and> 0 < d)"
        using decode_payload_returns [of base64Audio] by blast
      show ?thesis
      proof (cases r)
        case (Inl e)
        with Some False r show ?thesis
          using assms same by (simp add: onMessage_def)
      next
        case (Inr audioBuffer)
        with pos obtain d where d: "duration audioBuffer = Fin d" "0 \<le> d"
          by force
        have "onMessage message currentTime this = Some (schedule audioBuffer currentTime this)"
          using Some False r Inr by (simp add: onMessage_def)
        then show ?thesis
          using schedule_invariant [OF assms d] by simp
      qed
    qed
  qed
qed

lemma run_messages_invariant:
  assumes "no_overlap (scheduled this)" and "cursor_covers this" and "cursor_is_double this"
    and "list_all (\<lambda>(message, currentTime). is_double currentTime) events"
  shows "\<exists>this'. run_messages events this = Some this'
     \<and> no_overlap (scheduled this') \<and> cursor_covers this' \<and> cursor_is_double this'
     \<and> js_le (nextStartTime this) (nextStartTime this')"
  using assms
proof (induction events arbitrary: this)
  case Nil
  then have "nextStartTime this \<noteq> NaN"
    by (auto simp add: cursor_is_double_def)
  then have "js_le (nextStartTime this) (nextStartTime this)"
    by (rule js_le_refl)
  with Nil show ?case by simp
next
  case (Cons ev events)
  obtain message currentTime where ev: "ev = (message, currentTime)"
    by (cases ev)
  have clock: "is_double currentTime"
    and rest: "list_all (\<lambda>(message, currentTime). is_double currentTime) events"
    using Cons.prems(4) ev by simp_all
  obtain this1 where 1: "onMessage message currentTime this = Some this1"
    and i1: "no_overlap (scheduled this1)" "cursor_covers this1" "cursor_is_double this1"
    and m1: "js_le (nextStartTime this) (nextStartTime this1)"
    using onMessage_invariant [OF Cons.prems(1-3) clock, of message] by blast
  obtain this2 where 2: "run_messages events this1 = Some this2"
    and i2: "no_overlap (scheduled this2)" "cursor_covers this2" "cursor_is_double this2"
    and m2: "js_le (nextStartTime this1) (nextStartTime this2)"
    using Cons.IH [OF i1 rest] by blast
  have "run_messages (ev # events) this = Some this2"
    using ev 1 2 by simp
  moreover have "js_le (nextStartTime this) (nextStartTime this2)"
    using m1 m2 by (rule js_le_trans)
  ultimately show ?case
    using i2 by blast
qed

text \<open>
  Claim C1. Whatever messages arrive, at whatever readings of the output clock, every call of
  \<open>onMessage\<close> returns, the cursor \<open>nextStartTime\<close> never decreases, and of any two buffers
  started, the later one starts at or after the start of the earlier one plus its duration:
  the comparison \<open>start2 >= start1 + duration1\<close> is true as the program evaluates it. The sum
  is the double that line 326 gives the cursor; the exact sum of the two numbers can exceed
  it by the rounding. The clock readings are doubles, and the session starts from a state in
  which the buffers started so far do not overlap and end at or before the cursor, and the
  cursor is a double, as after the constructor. Every decoded buffer has a positive duration,
  since \<open>createBuffer\<close> refuses a buffer of no frames.
\<close>

theorem scheduler_non_overlap:
  assumes "no_overlap (scheduled this)" and "cursor_covers this" and "cursor_is_double this"
    and "list_all (\<lambda>(message, currentTime). is_double currentTime) events"
  shows "\<exists>this'. run_messages events this = Some this'
     \<and> js_le (nextStartTime this) (nextStartTime this')
     \<and> (\<forall>i j. i < j \<and> j < length (scheduled this') \<longrightarrow>
           js_le (js_plus (Fin (fst (scheduled this' ! i))) (duration (snd (scheduled this' ! i))))
             (Fin (fst (scheduled this' ! j))))"
proof -
  obtain this' where run: "run_messages events this = Some this'"
    and mono: "js_le (nextStartTime this) (nextStartTime this')"
    and inv: "no_overlap (scheduled this')"
    using run_messages_invariant [OF assms] by blast
  from inv have "\<forall>i j. i < j \<and> j < length (scheduled this') \<longrightarrow>
      js_le (js_plus (Fin (fst (scheduled this' ! i))) (duration (snd (scheduled this' ! i))))
        (Fin (fst (scheduled this' ! j)))"
    using no_overlap_nth [of "scheduled this'"] by (simp add: scheduled_end_def)
  with run mono show ?thesis by blast
qed


lemma decode_six_bytes: "decode ''AAAAAAAA'' = Inr [0, 0, 0, 0, 0, 0]"
  by (simp add: decode_def atob_def strip_padding_def ascii_whitespace_def b64_index_def
      b64_alphabet_def)

lemma decode_payload_three_frames:
  "decode_payload ''AAAAAAAA''
     = Some (Inr \<lparr>sampleRate = 24000, frames = 3, channelData = [[Fin 0, Fin 0, Fin 0]]\<rparr>)"
  by (simp add: decode_payload_def decode_six_bytes decodeAudioData_general buffer_frames_def
      frame_value_def Int16Array_get_def upt_conv_Cons)

lemma round_three_frames:
  "round_double (1 / 8000) = Fin (1152921504606847 / 9223372036854775808)"
  by (rule round_double_nearest [where e = "- 13" and k = "- 65" and m = 4611686018427388])
    simp_all

lemma round_second_start:
  "round_double (1152921504606847 / 9223372036854775808)
     = Fin (1152921504606847 / 9223372036854775808)"
  by (rule round_double_nearest [where e = "- 13" and k = "- 65" and m = 4611686018427388])
    simp_all

lemma round_third_start:
  "round_double (24595658764946069 / 147573952589676412928)
     = Fin (6148914691236517 / 36893488147419103232)"
  by (rule round_double_nearest [where e = "- 13" and k = "- 65" and m = 6148914691236517])
    simp_all

lemma round_last_cursor:
  "round_double (30744573456182585 / 147573952589676412928)
     = Fin (3843071682022823 / 18446744073709551616)"
  by (rule round_double_nearest [where e = "- 13" and k = "- 65" and m = 7686143364045646])
    simp_all

lemma run_three_one_one:
  "run_messages [(audio_message ''AAAAAAAA'', 0), (audio_message ''AAA='', 0),
       (audio_message ''AAA='', 0)] new_LiveSession
     = Some (new_LiveSession
         \<lparr>nextStartTime := Fin (3843071682022823 / 18446744073709551616),
          scheduled :=
            [(0, \<lparr>sampleRate = 24000, frames = 3, channelData = [[Fin 0, Fin 0, Fin 0]]\<rparr>),
             (1152921504606847 / 9223372036854775808,
              \<lparr>sampleRate = 24000, frames = 1, channelData = [[Fin 0]]\<rparr>),
             (6148914691236517 / 36893488147419103232,
              \<lparr>sampleRate = 24000, frames = 1, channelData = [[Fin 0]]\<rparr>)]\<rparr>)"
  by (simp add: onMessage_audio_message decode_payload_three_frames decode_payload_one_frame
      schedule_def Let_def new_LiveSession_def duration_def round_three_frames round_frame_time
      round_second_start round_third_start round_last_cursor)


theorem scheduler_non_overlap_witness:
  "no_overlap (scheduled new_LiveSession) \<and> cursor_covers new_LiveSession
   \<and> cursor_is_double new_LiveSession
   \<and> (\<exists>this'. run_messages [(audio_message ''AAAAAAAA'', 0), (audio_message ''AAA='', 0),
                    (audio_message ''AAA='', 0)] new_LiveSession = Some this'
          \<and> nextStartTime this' = Fin (3843071682022823 / 18446744073709551616)
          \<and> map fst (scheduled this')
              = [0, 1152921504606847 / 9223372036854775808,
                 6148914691236517 / 36893488147419103232]
          \<and> js_le (js_plus (Fin (fst (scheduled this' ! 1))) (duration (snd (scheduled this' ! 1))))
               (Fin (fst (scheduled this' ! 2))))"
proof -
  let ?events = "[(audio_message ''AAAAAAAA'', 0), (audio_message ''AAA='', 0),
      (audio_message ''AAA='', 0)]"
  have hyp: "no_overlap (scheduled new_LiveSession)" "cursor_covers new_LiveSession"
    "cursor_is_double new_LiveSession"
    "list_all (\<lambda>(message, currentTime). is_double currentTime) ?events"
    by (simp_all add: new_LiveSession_def cursor_covers_def cursor_is_double_def is_double_zero)
  from scheduler_non_overlap [OF hyp] obtain this' where
    run: "run_messages ?events new_LiveSession = Some this'"
    and sep: "\<forall>i j. i < j \<and> j < length (scheduled this') \<longrightarrow>
           js_le (js_plus (Fin (fst (scheduled this' ! i))) (duration (snd (scheduled this' ! i))))
             (Fin (fst (scheduled this' ! j)))"
    by blast
  from run have state: "this' = new_LiveSession
         \<lparr>nextStartTime := Fin (3843071682022823 / 18446744073709551616),
          scheduled :=
            [(0, \<lparr>sampleRate = 24000, frames = 3, channelData = [[Fin 0, Fin 0, Fin 0]]\<rparr>),
             (1152921504606847 / 9223372036854775808,
              \<lparr>sampleRate = 24000, frames = 1, channelData = [[Fin 0]]\<rparr>),
             (6148914691236517 / 36893488147419103232,
              \<lparr>sampleRate = 24000, frames = 1, channelData = [[Fin 0]]\<rparr>)]\<rparr>"
    by (simp only: run_three_one_one option.inject)
  then have cursor: "nextStartTime this' = Fin (3843071682022823 / 18446744073709551616)"
    and starts: "map fst (scheduled this')
              = [0, 1152921504606847 / 9223372036854775808,
                 6148914691236517 / 36893488147419103232]"
    by simp_all
  from starts have "length (scheduled this') = 3"
    using length_map [of fst "scheduled this'"] by simp
  with sep have "js_le (js_plus (Fin (fst (scheduled this' ! 1))) (duration (snd (scheduled this' ! 1))))
      (Fin (fst (scheduled this' ! 2)))"
    by simp
  with hyp(1-3) run cursor starts show ?thesis
    by simp
qed

text \<open>
  Claim C2. A buffer handed to the scheduler is started at the maximum of the clock reading
  and the cursor, when that time is finite and not negative as the time of an audio clock is,
  and the cursor moves to the double sum of that time and the duration of the buffer; when
  the clock has passed the cursor, the start is the clock reading. This is what \<open>onMessage\<close>
  does with every payload that decodes. Three buffers of 12000, 7200 and 4800 frames at
  24000 Hz, that is of 0.5 s, 0.3 s and 0.2 s, that arrive at the clock readings 0, 2 and 2
  on a new session start at 0, at 2, and at the double that the literal \<open>2.3\<close> denotes.
\<close>

theorem scheduler_catch_up:
  "(Math_max (Fin currentTime) (nextStartTime this) = Fin start \<and> 0 \<le> start \<longrightarrow>
      scheduled (schedule u currentTime this) = scheduled this @ [(start, u)]
      \<and> nextStartTime (schedule u currentTime this) = js_plus (Fin start) (duration u))
   \<and> (0 \<le> currentTime \<and> js_lt (nextStartTime this) (Fin currentTime) \<longrightarrow>
        scheduled (schedule u currentTime this) = scheduled this @ [(currentTime, u)])
   \<and> (base64Audio_of message = Some base64Audio \<and> base64Audio \<noteq> []
        \<and> decode_payload base64Audio = Some (Inr u) \<longrightarrow>
        onMessage message currentTime this = Some (schedule u currentTime this))
   \<and> (sampleRate u1 = 24000 \<and> frames u1 = 12000 \<and> sampleRate u2 = 24000 \<and> frames u2 = 7200
        \<and> sampleRate u3 = 24000 \<and> frames u3 = 4800
        \<and> nextStartTime this = Fin 0 \<and> scheduled this = [] \<longrightarrow>
        scheduled (schedule u3 2 (schedule u2 2 (schedule u1 0 this)))
          = [(0, u1), (2, u2), (2589569785738035 / 1125899906842624, u3)]
        \<and> round_double (23 / 10) = Fin (2589569785738035 / 1125899906842624))"
proof -
  have a: "Math_max (Fin currentTime) (nextStartTime this) = Fin start \<and> 0 \<le> start \<longrightarrow>
      scheduled (schedule u currentTime this) = scheduled this @ [(start, u)]
      \<and> nextStartTime (schedule u currentTime this) = js_plus (Fin start) (duration u)"
    by (simp add: schedule_def Let_def)
  have b: "0 \<le> currentTime \<and> js_lt (nextStartTime this) (Fin currentTime) \<longrightarrow>
        scheduled (schedule u currentTime this) = scheduled this @ [(currentTime, u)]"
    by (cases "nextStartTime this") (auto simp add: schedule_def Let_def max_def)
  have c: "base64Audio_of message = Some base64Audio \<and> base64Audio \<noteq> []
        \<and> decode_payload base64Audio = Some (Inr u) \<longrightarrow>
        onMessage message currentTime this = Some (schedule u currentTime this)"
    by (simp add: onMessage_def)
  have half: "round_double (1 / 2) = Fin (1 / 2)"
    by (rule round_double_nearest [where e = "- 1" and k = "- 53" and m = "2 ^ 52"]) simp_all
  have tenths: "round_double (3 / 10) = Fin (5404319552844595 / 18014398509481984)"
    by (rule round_double_nearest [where e = "- 2" and k = "- 54" and m = 5404319552844595])
      simp_all
  have sum: "round_double (41433116571808563 / 18014398509481984)
      = Fin (2589569785738035 / 1125899906842624)"
    by (rule round_double_nearest [where e = 1 and k = "- 51" and m = 5179139571476070])
      simp_all
  have literal: "round_double (23 / 10) = Fin (2589569785738035 / 1125899906842624)"
    by (rule round_double_nearest [where e = 1 and k = "- 51" and m = 5179139571476070])
      simp_all
  have d: "sampleRate u1 = 24000 \<and> frames u1 = 12000 \<and> sampleRate u2 = 24000 \<and> frames u2 = 7200
        \<and> sampleRate u3 = 24000 \<and> frames u3 = 4800
        \<and> nextStartTime this = Fin 0 \<and> scheduled this = [] \<longrightarrow>
        scheduled (schedule u3 2 (schedule u2 2 (schedule u1 0 this)))
          = [(0, u1), (2, u2), (2589569785738035 / 1125899906842624, u3)]"
    by (simp add: schedule_def Let_def duration_def half tenths sum)
  from a b c d literal show ?thesis
    by (intro conjI impI) simp_all
qed


theorem scheduler_catch_up_witness:
  "scheduled (schedule \<lparr>sampleRate = 24000, frames = 4800, channelData = [replicate 4800 (Fin 0)]\<rparr> 2
     (schedule \<lparr>sampleRate = 24000, frames = 7200, channelData = [replicate 7200 (Fin 0)]\<rparr> 2
       (schedule \<lparr>sampleRate = 24000, frames = 12000, channelData = [replicate 12000 (Fin 0)]\<rparr> 0
          new_LiveSession)))
   = [(0, \<lparr>sampleRate = 24000, frames = 12000, channelData = [replicate 12000 (Fin 0)]\<rparr>),
      (2, \<lparr>sampleRate = 24000, frames = 7200, channelData = [replicate 7200 (Fin 0)]\<rparr>),
      (2589569785738035 / 1125899906842624,
       \<lparr>sampleRate = 24000, frames = 4800, channelData = [replicate 4800 (Fin 0)]\<rparr>)]
   \<and> round_double (23 / 10) = Fin (2589569785738035 / 1125899906842624)
   \<and> onMessage (audio_message ''AAA='') 5 new_LiveSession
       = Some (schedule \<lparr>sampleRate = 24000, frames = 1, channelData = [[Fin 0]]\<rparr> 5 new_LiveSession)
   \<and> scheduled (schedule \<lparr>sampleRate = 24000, frames = 1, channelData = [[Fin 0]]\<rparr> 5
        new_LiveSession)
       = [(5, \<lparr>sampleRate = 24000, frames = 1, channelData = [[Fin 0]]\<rparr>)]
   \<and> nextStartTime (schedule \<lparr>sampleRate = 24000, frames = 1, channelData = [[Fin 0]]\<rparr> 5
        new_LiveSession) = Fin (2814773223354619 / 562949953421312)"
proof -
  let ?u1 = "\<lparr>sampleRate = 24000, frames = 12000, channelData = [replicate 12000 (Fin 0)]\<rparr>"
  let ?u2 = "\<lparr>sampleRate = 24000, frames = 7200, channelData = [replicate 7200 (Fin 0)]\<rparr>"
  let ?u3 = "\<lparr>sampleRate = 24000, frames = 4800, channelData = [replicate 4800 (Fin 0)]\<rparr>"
  let ?u = "\<lparr>sampleRate = 24000, frames = 1, channelData = [[Fin 0]]\<rparr>"
  note claim =
    scheduler_catch_up [of 5 new_LiveSession 5 ?u "audio_message ''AAA=''" "''AAA=''" ?u1 ?u2 ?u3]
  have three: "sampleRate ?u1 = 24000 \<and> frames ?u1 = 12000 \<and> sampleRate ?u2 = 24000
      \<and> frames ?u2 = 7200 \<and> sampleRate ?u3 = 24000 \<and> frames ?u3 = 4800
      \<and> nextStartTime new_LiveSession = Fin 0 \<and> scheduled new_LiveSession = []"
    by (simp add: new_LiveSession_def)
  with claim have starts: "scheduled (schedule ?u3 2 (schedule ?u2 2 (schedule ?u1 0 new_LiveSession)))
      = [(0, ?u1), (2, ?u2), (2589569785738035 / 1125899906842624, ?u3)]
      \<and> round_double (23 / 10) = Fin (2589569785738035 / 1125899906842624)"
    by blast
  have "Math_max (Fin 5) (nextStartTime new_LiveSession) = Fin 5 \<and> (0 :: real) \<le> 5"
    by (simp add: new_LiveSession_def)
  with claim have late: "scheduled (schedule ?u 5 new_LiveSession) = scheduled new_LiveSession @ [(5, ?u)]
      \<and> nextStartTime (schedule ?u 5 new_LiveSession) = js_plus (Fin 5) (duration ?u)"
    by blast
  have "round_double (737875911863073301157 / 147573952589676412928)
      = Fin (2814773223354619 / 562949953421312)"
    by (rule round_double_nearest [where e = 2 and k = "- 50" and m = 5629546446709238])
      simp_all
  then have cursor: "js_plus (Fin 5) (duration ?u) = Fin (2814773223354619 / 562949953421312)"
    by (simp add: duration_def round_frame_time)
  have "base64Audio_of (audio_message ''AAA='') = Some ''AAA='' \<and> ''AAA='' \<noteq> []
      \<and> decode_payload ''AAA='' = Some (Inr ?u)"
    by (simp add: base64Audio_of_audio_message decode_payload_one_frame)
  with claim have "onMessage (audio_message ''AAA='') 5 new_LiveSession
      = Some (schedule ?u 5 new_LiveSession)"
    by blast
  with starts late cursor show ?thesis
    by (simp add: new_LiveSession_def)
qed

text \<open>
  Claim C7. A message whose payload does not decode, because \<open>atob\<close> refuses the text or
  \<open>decodeAudioData\<close> raises, leaves the session as it was: \<open>onMessage\<close> returns, nothing is
  started and the cursor keeps its value. A sequence of messages with such a message in it
  ends in the same session as the sequence without it.
\<close>

theorem decode_failure_isolated:
  assumes "base64Audio_of message = Some base64Audio" and "base64Audio \<noteq> []"
    and "decode_payload base64Audio = Some (Inl e)"
  shows "onMessage message currentTime this = Some this
     \<and> run_messages (before @ (message, currentTime) # after) this0
         = run_messages (before @ after) this0"
proof -
  have drop: "onMessage message currentTime this' = Some this'" for this'
    using assms by (simp add: onMessage_def)
  then have "run_messages ((message, currentTime) # after) this' = run_messages after this'"
    for this'
    by simp
  then have "run_messages (before @ (message, currentTime) # after) this0
      = run_messages (before @ after) this0"
    by (simp only: run_messages_append)
  with drop show ?thesis
    by simp
qed

theorem decode_failure_isolated_witness:
  "onMessage (audio_message ''AAAA'') 7 new_LiveSession = Some new_LiveSession
   \<and> run_messages [(audio_message ''AAA='', 0), (audio_message ''AAAA'', 7),
                    (audio_message ''AAA='', 0)] new_LiveSession
       = run_messages [(audio_message ''AAA='', 0), (audio_message ''AAA='', 0)] new_LiveSession"
  using decode_failure_isolated [of "audio_message ''AAAA''" "''AAAA''" RangeError 7
      new_LiveSession "[(audio_message ''AAA='', 0)]" "[(audio_message ''AAA='', 0)]"
      new_LiveSession]
  by (simp add: base64Audio_of_audio_message decode_payload_odd)

text \<open>
  Claim C10. A message without inline audio data in its first part, or with empty data,
  leaves the whole session unchanged.
\<close>

theorem no_audio_payload_unchanged:
  assumes "base64Audio_of message = None \<or> base64Audio_of message = Some []"
  shows "onMessage message currentTime this = Some this"
  using assms by (auto simp add: onMessage_def)

theorem no_audio_payload_unchanged_witness:
  "onMessage (LiveServerMessage (Some (LiveServerContent (Some (Content (Some [Part None]))))))
     3 new_LiveSession = Some new_LiveSession
   \<and> onMessage (LiveServerMessage None) 3 new_LiveSession = Some new_LiveSession"
  using no_audio_payload_unchanged
      [of "LiveServerMessage (Some (LiveServerContent (Some (Content (Some [Part None])))))"
        3 new_LiveSession]
    no_audio_payload_unchanged [of "LiveServerMessage None" 3 new_LiveSession]
  by (simp add: base64Audio_of_def)


section \<open>Teardown\<close>

lemma disconnect_closes:
  "fst (disconnect this) = None \<Longrightarrow>
     inputContext (snd (disconnect this)) = Closed \<and> outputContext (snd (disconnect this)) = Closed"
  by (auto simp add: disconnect_def AudioContext_close_def Let_def split: if_splits)

lemma disconnect_partial:
  "fst (disconnect this) \<noteq> None \<Longrightarrow>
     inputContext (snd (disconnect this)) = Closed \<or> outputContext (snd (disconnect this)) = Closed"
  by (auto simp add: disconnect_def AudioContext_close_def Let_def split: if_splits)

lemma disconnect_closed_context:
  "inputContext this = Closed \<or> outputContext this = Closed \<Longrightarrow>
     fst (disconnect this) = Some InvalidStateError"
  by (auto simp add: disconnect_def AudioContext_close_def Let_def split: if_splits)

text \<open>
  Claim C8. On a new session the first \<open>disconnect\<close> returns without error and closes both
  audio contexts. The second one is rejected with \<open>InvalidStateError\<close>: the two nodes are
  guarded by a test for \<open>null\<close>, the two contexts are closed again without a test, and
  closing a closed context is an error. The same holds after a first call on any session.
\<close>

theorem disconnect_twice_rejects:
  "fst (disconnect new_LiveSession) = None
   \<and> released (snd (disconnect new_LiveSession)) = [InputContextClose, OutputContextClose]
   \<and> fst (disconnect (snd (disconnect new_LiveSession))) = Some InvalidStateError
   \<and> fst (disconnect (snd (disconnect this))) = Some InvalidStateError"
proof -
  have "fst (disconnect new_LiveSession) = None
      \<and> released (snd (disconnect new_LiveSession)) = [InputContextClose, OutputContextClose]"
    by (simp add: disconnect_def AudioContext_close_def Let_def new_LiveSession_def)
  moreover have "fst (disconnect (snd (disconnect s))) = Some InvalidStateError" for s
    using disconnect_closes [of s] disconnect_partial [of s]
      disconnect_closed_context [of "snd (disconnect s)"]
    by blast
  ultimately show ?thesis
    by simp
qed

section \<open>Capture\<close>

lemma onaudioprocess_sends:
  "onaudioprocess inputData this = Inr (then_send (frame_input inputData) this)"
  by (simp add: onaudioprocess_def base64EncodeAudio_def bytes_to_base64_def btoa_bytes
      frame_input_def)

lemma capture_fulfilled:
  "session this = Fulfilled \<Longrightarrow>
     capture frames_in this = this\<lparr>sent := sent this @ map frame_input frames_in\<rparr>"
  by (induction frames_in arbitrary: this) (simp_all add: onaudioprocess_sends then_send_def)

lemma capture_pending:
  "session this = Pending \<Longrightarrow>
     capture frames_in this = this\<lparr>reactions := reactions this @ map frame_input frames_in\<rparr>"
  by (induction frames_in arbitrary: this) (simp_all add: onaudioprocess_sends then_send_def)

text \<open>
  Claim C9. The capture handler registers exactly one send per frame on the session
  promise. With the connection established, the sends of a sequence of frames are appended
  to the sends of the connection in the order of the frames; registered while the promise
  is pending, they run in that order once it is fulfilled, after the reactions registered
  before. The input sent for a frame carries the transport text of the 16-bit PCM bytes of
  the frame and the type \<open>audio/pcm;rate=16000\<close>.
\<close>

theorem capture_sends_each_frame:
  "(session this = Fulfilled \<longrightarrow>
      sent (capture captured this) = sent this @ map frame_input captured)
   \<and> (session this = Pending \<longrightarrow>
      sent (session_fulfilled (capture captured this))
        = sent this @ reactions this @ map frame_input captured)
   \<and> list_all (\<lambda>inputData.
        bytes_to_base64 (floatToPCM16 inputData) = Inr (data (frame_input inputData))
        \<and> mimeType (frame_input inputData) = ''audio/pcm;rate=16000'') captured
   \<and> onaudioprocess inputData this = Inr (then_send (frame_input inputData) this)"
  by (simp add: capture_fulfilled capture_pending session_fulfilled_def onaudioprocess_sends
      list_all_iff frame_input_def bytes_to_base64_def btoa_bytes)

theorem capture_sends_each_frame_witness:
  "sent (capture [[Fin 1, Fin (- 1)], [Fin 0, Fin 0, Fin 0]] (session_fulfilled new_LiveSession))
     = [\<lparr>mimeType = ''audio/pcm;rate=16000'', data = ''/38AgA==''\<rparr>,
        \<lparr>mimeType = ''audio/pcm;rate=16000'', data = ''AAAAAAAA''\<rparr>]
   \<and> sent (session_fulfilled (capture [[Fin 1, Fin (- 1)], [Fin 0, Fin 0, Fin 0]] new_LiveSession))
     = [\<lparr>mimeType = ''audio/pcm;rate=16000'', data = ''/38AgA==''\<rparr>,
        \<lparr>mimeType = ''audio/pcm;rate=16000'', data = ''AAAAAAAA''\<rparr>]"
proof -
  let ?captured = "[[Fin 1, Fin (- 1)], [Fin 0, Fin 0, Fin 0]]"
  have inputs: "map frame_input ?captured
      = [\<lparr>mimeType = ''audio/pcm;rate=16000'', data = ''/38AgA==''\<rparr>,
         \<lparr>mimeType = ''audio/pcm;rate=16000'', data = ''AAAAAAAA''\<rparr>]"
    by (simp add: frame_input_def floatToPCM16_def int16_bytes_def pcm_sample_def js_trunc_def
        b64_char_def b64_alphabet_def)
  have open_session: "session (session_fulfilled new_LiveSession) = Fulfilled"
    and "sent (session_fulfilled new_LiveSession) = []"
    and waiting: "session new_LiveSession = Pending"
    and "sent new_LiveSession = []" and "reactions new_LiveSession = []"
    by (simp_all add: session_fulfilled_def new_LiveSession_def)
  moreover have "sent (capture ?captured (session_fulfilled new_LiveSession))
      = sent (session_fulfilled new_LiveSession) @ map frame_input ?captured"
    using capture_sends_each_frame [of "session_fulfilled new_LiveSession" ?captured "[]"]
      open_session by blast
  moreover have "sent (session_fulfilled (capture ?captured new_LiveSession))
      = sent new_LiveSession @ reactions new_LiveSession @ map frame_input ?captured"
    using capture_sends_each_frame [of new_LiveSession ?captured "[]"] waiting by blast
  ultimately show ?thesis
    by (simp only: inputs append_Nil simp_thms)
qed

end
